theory Spec2Isabelle
  imports Main "HOL-Library.Word"
begin

section \<open>The JSON scanner of \<^verbatim>\<open>src/examples/media-session/json.h\<close>\<close>

text \<open>
  Memory is a list of bytes; a \<^verbatim>\<open>const char *\<close> is an index into it. A read at an index
  outside the list has no defined result in C and is \<open>None\<close> here.
\<close>

type_synonym memory = "char list"

definition peek :: "memory \<Rightarrow> nat \<Rightarrow> char option" where
  "peek mem p = (if p < length mem then Some (mem ! p) else None)"

text \<open>\<^verbatim>\<open>(unsigned char)c\<close>, and a GNU case range \<^verbatim>\<open>case lo ... hi\<close> on it.\<close>

definition uchar :: "char \<Rightarrow> nat" where
  "uchar c = of_char c"

definition case_range :: "nat \<Rightarrow> nat \<Rightarrow> char \<Rightarrow> bool" where
  "case_range lo hi c = (lo \<le> uchar c \<and> uchar c \<le> hi)"

text \<open>The conversion of a pointer difference to the \<^verbatim>\<open>int\<close> that is returned.\<close>

definition int_of_ptrdiff :: "int \<Rightarrow> int" where
  "int_of_ptrdiff d = sint (word_of_int d :: 32 word)"

text \<open>
  The anonymous enum of \<^verbatim>\<open>spa_json_next\<close> (\<^verbatim>\<open>__NONE\<close> is 0, the value of a cursor
  that \<^verbatim>\<open>SPA_JSON_INIT\<close> or \<^verbatim>\<open>SPA_JSON_ENTER\<close> has made) and \<^verbatim>\<open>struct spa_json\<close>. The
  field \<^verbatim>\<open>state\<close> is a \<^verbatim>\<open>uint32_t\<close> that only ever holds a value of the enum. \<^verbatim>\<open>cur\<close> and
  \<^verbatim>\<open>end\<close> are pointers, \<^verbatim>\<open>parent\<close> is the address of a cursor or \<^verbatim>\<open>NULL\<close>, and \<^verbatim>\<open>depth\<close>
  is a \<^verbatim>\<open>uint32_t\<close> that wraps around.
\<close>

datatype scan_state = NONE | STRUCT | BARE | STRING | UTF8 | ESC

record spa_json =
  cur :: nat
  endp :: nat
  parent :: "nat option"
  state :: scan_state
  depth :: "32 word"

text \<open>Cursors live in a store, addressed by number, so that a child can write to its parent.\<close>

type_synonym store = "nat \<Rightarrow> spa_json"

definition SPA_JSON_INIT :: "nat \<Rightarrow> nat \<Rightarrow> spa_json" where
  "SPA_JSON_INIT data sz =
     \<lparr>cur = data, endp = data + sz, parent = None, state = NONE, depth = 0\<rparr>"

definition spa_json_init :: "store \<Rightarrow> nat \<Rightarrow> nat \<Rightarrow> nat \<Rightarrow> store" where
  "spa_json_init h iter data sz = h(iter := SPA_JSON_INIT data sz)"

definition SPA_JSON_ENTER :: "store \<Rightarrow> nat \<Rightarrow> spa_json" where
  "SPA_JSON_ENTER h iter =
     \<lparr>cur = cur (h iter), endp = endp (h iter), parent = Some iter, state = NONE, depth = 0\<rparr>"

definition spa_json_enter :: "store \<Rightarrow> nat \<Rightarrow> nat \<Rightarrow> store" where
  "spa_json_enter h iter sub = h(sub := SPA_JSON_ENTER h iter)"

text \<open>
  One pass through the \<^verbatim>\<open>switch\<close> at the label \<^verbatim>\<open>again\<close>, for the byte \<open>c\<close> at
  \<^verbatim>\<open>iter->cur\<close>. \<open>v\<close> is \<^verbatim>\<open>*value\<close> and \<open>u\<close> is \<^verbatim>\<open>utf8_remain\<close>. The result says how the
  body is left: by \<^verbatim>\<open>continue\<close>, by \<^verbatim>\<open>return\<close>, or by the \<^verbatim>\<open>return 0\<close> that first
  stores \<^verbatim>\<open>iter->cur\<close> in the parent. \<open>Fault\<close> is a read outside the memory. A
  \<^verbatim>\<open>goto again\<close> is a recursive call. \<^verbatim>\<open>utf8_remain\<close> is an \<^verbatim>\<open>int\<close> that changes by at
  most 3 for each byte and is taken as an unbounded integer.
\<close>

datatype flow =
    Continue spa_json nat int
  | Return spa_json nat int
  | Return_parent spa_json nat
  | Fault

function again :: "char \<Rightarrow> spa_json \<Rightarrow> nat \<Rightarrow> int \<Rightarrow> flow" where
  "again c iter v u =
    (case state iter of
       NONE \<Rightarrow> again c (iter\<lparr>state := STRUCT, depth := 0\<rparr>) v u
     | STRUCT \<Rightarrow>
         if c = CHR 0x09 \<or> c = CHR '' '' \<or> c = CHR 0x0D \<or> c = CHR 0x0A
            \<or> c = CHR '':'' \<or> c = CHR '','' then
           Continue iter v u
         else if c = CHR 0x22 then
           Continue (iter\<lparr>state := STRING\<rparr>) (cur iter) u
         else if c = CHR ''['' \<or> c = CHR ''{'' then
           (let iter1 = iter\<lparr>depth := depth iter + 1\<rparr> in
            if 1 < depth iter1 then Continue iter1 (cur iter) u
            else Return (iter1\<lparr>cur := cur iter1 + 1\<rparr>) (cur iter) 1)
         else if c = CHR ''}'' \<or> c = CHR '']'' then
           (if depth iter = 0 then Return_parent iter v
            else Continue (iter\<lparr>depth := depth iter - 1\<rparr>) v u)
         else if c = CHR ''-'' \<or> case_range 97 122 c \<or> case_range 65 90 c
                 \<or> case_range 48 57 c then
           Continue (iter\<lparr>state := BARE\<rparr>) (cur iter) u
         else Return iter v (- 1)
     | BARE \<Rightarrow>
         if c = CHR 0x09 \<or> c = CHR '' '' \<or> c = CHR 0x0D \<or> c = CHR 0x0A
            \<or> c = CHR '':'' \<or> c = CHR '','' \<or> c = CHR '']'' \<or> c = CHR ''}'' then
           (if 0 < depth iter then again c (iter\<lparr>state := STRUCT\<rparr>) v u
            else Return (iter\<lparr>state := STRUCT\<rparr>) v
                   (int_of_ptrdiff (int (cur iter) - int v)))
         else if 32 \<le> uchar c \<and> uchar c \<le> 126 then Continue iter v u
         else Return iter v (- 1)
     | STRING \<Rightarrow>
         if c = CHR 0x5C then Continue (iter\<lparr>state := ESC\<rparr>) v u
         else if c = CHR 0x22 then
           (if 0 < depth iter then Continue (iter\<lparr>state := STRUCT\<rparr>) v u
            else Return (iter\<lparr>state := STRUCT, cur := cur iter + 1\<rparr>) v
                   (int_of_ptrdiff (int (cur iter + 1) - int v)))
         else if case_range 240 247 c then Continue (iter\<lparr>state := UTF8\<rparr>) v (u + 3)
         else if case_range 224 239 c then Continue (iter\<lparr>state := UTF8\<rparr>) v (u + 2)
         else if case_range 192 223 c then Continue (iter\<lparr>state := UTF8\<rparr>) v (u + 1)
         else if 32 \<le> uchar c \<and> uchar c \<le> 126 then Continue iter v u
         else Return iter v (- 1)
     | UTF8 \<Rightarrow>
         if case_range 128 191 c then
           (if u - 1 = 0 then Continue (iter\<lparr>state := STRING\<rparr>) v (u - 1)
            else Continue iter v (u - 1))
         else Return iter v (- 1)
     | ESC \<Rightarrow>
         if c = CHR 0x22 \<or> c = CHR 0x5C \<or> c = CHR ''/'' \<or> c = CHR ''b'' \<or> c = CHR ''f''
            \<or> c = CHR ''n'' \<or> c = CHR ''r'' \<or> c = CHR ''t'' \<or> c = CHR ''u'' then
           Continue (iter\<lparr>state := STRING\<rparr>) v u
         else Return iter v (- 1))"
  by pat_completeness auto
termination
  by (relation "measure (\<lambda>(c, iter, v, u).
        case state iter of NONE \<Rightarrow> 2 | BARE \<Rightarrow> 1 | _ \<Rightarrow> 0)") auto

declare again.simps [simp del]

lemma again_NONE:
  "state iter = NONE \<Longrightarrow>
   again c iter v u = again c (iter\<lparr>state := STRUCT, depth := 0\<rparr>) v u"
  by (subst again.simps) simp

lemma again_STRUCT:
  "state iter = STRUCT \<Longrightarrow> again c iter v u =
    (if c = CHR 0x09 \<or> c = CHR '' '' \<or> c = CHR 0x0D \<or> c = CHR 0x0A
        \<or> c = CHR '':'' \<or> c = CHR '','' then
       Continue iter v u
     else if c = CHR 0x22 then
       Continue (iter\<lparr>state := STRING\<rparr>) (cur iter) u
     else if c = CHR ''['' \<or> c = CHR ''{'' then
       (if 1 < depth iter + 1 then Continue (iter\<lparr>depth := depth iter + 1\<rparr>) (cur iter) u
        else Return (iter\<lparr>depth := depth iter + 1, cur := cur iter + 1\<rparr>) (cur iter) 1)
     else if c = CHR ''}'' \<or> c = CHR '']'' then
       (if depth iter = 0 then Return_parent iter v
        else Continue (iter\<lparr>depth := depth iter - 1\<rparr>) v u)
     else if c = CHR ''-'' \<or> case_range 97 122 c \<or> case_range 65 90 c
             \<or> case_range 48 57 c then
       Continue (iter\<lparr>state := BARE\<rparr>) (cur iter) u
     else Return iter v (- 1))"
  by (subst again.simps) (simp add: Let_def)

lemma again_BARE:
  "state iter = BARE \<Longrightarrow> again c iter v u =
    (if c = CHR 0x09 \<or> c = CHR '' '' \<or> c = CHR 0x0D \<or> c = CHR 0x0A
        \<or> c = CHR '':'' \<or> c = CHR '','' \<or> c = CHR '']'' \<or> c = CHR ''}'' then
       (if 0 < depth iter then again c (iter\<lparr>state := STRUCT\<rparr>) v u
        else Return (iter\<lparr>state := STRUCT\<rparr>) v (int_of_ptrdiff (int (cur iter) - int v)))
     else if 32 \<le> uchar c \<and> uchar c \<le> 126 then Continue iter v u
     else Return iter v (- 1))"
  by (subst again.simps) simp

lemma again_STRING:
  "state iter = STRING \<Longrightarrow> again c iter v u =
    (if c = CHR 0x5C then Continue (iter\<lparr>state := ESC\<rparr>) v u
     else if c = CHR 0x22 then
       (if 0 < depth iter then Continue (iter\<lparr>state := STRUCT\<rparr>) v u
        else Return (iter\<lparr>state := STRUCT, cur := cur iter + 1\<rparr>) v
               (int_of_ptrdiff (int (cur iter + 1) - int v)))
     else if case_range 240 247 c then Continue (iter\<lparr>state := UTF8\<rparr>) v (u + 3)
     else if case_range 224 239 c then Continue (iter\<lparr>state := UTF8\<rparr>) v (u + 2)
     else if case_range 192 223 c then Continue (iter\<lparr>state := UTF8\<rparr>) v (u + 1)
     else if 32 \<le> uchar c \<and> uchar c \<le> 126 then Continue iter v u
     else Return iter v (- 1))"
  by (subst again.simps) simp

lemma again_UTF8:
  "state iter = UTF8 \<Longrightarrow> again c iter v u =
    (if case_range 128 191 c then
       (if u - 1 = 0 then Continue (iter\<lparr>state := STRING\<rparr>) v (u - 1)
        else Continue iter v (u - 1))
     else Return iter v (- 1))"
  by (subst again.simps) simp

lemma again_ESC:
  "state iter = ESC \<Longrightarrow> again c iter v u =
    (if c = CHR 0x22 \<or> c = CHR 0x5C \<or> c = CHR ''/'' \<or> c = CHR ''b'' \<or> c = CHR ''f''
        \<or> c = CHR ''n'' \<or> c = CHR ''r'' \<or> c = CHR ''t'' \<or> c = CHR ''u'' then
       Continue (iter\<lparr>state := STRING\<rparr>) v u
     else Return iter v (- 1))"
  by (subst again.simps) simp

lemmas again_state = again_NONE again_STRUCT again_BARE again_STRING again_UTF8 again_ESC

lemma again_keeps_window:
  "again c iter v u = Continue iter' v' u' \<Longrightarrow> cur iter' = cur iter \<and> endp iter' = endp iter"
proof (cases "state iter")
  case NONE
  assume "again c iter v u = Continue iter' v' u'"
  with NONE show ?thesis
    by (clarsimp simp: again_NONE again_STRUCT split: if_splits)
next
  case BARE
  assume "again c iter v u = Continue iter' v' u'"
  with BARE show ?thesis
    by (clarsimp simp: again_BARE again_STRUCT split: if_splits)
qed (clarsimp simp: again_state split: if_splits)+

text \<open>
  The \<^verbatim>\<open>for\<close> loop of \<^verbatim>\<open>spa_json_next\<close> on the fields of \<^verbatim>\<open>*iter\<close>, and the
  \<^verbatim>\<open>return\<close> after it. The result is never \<open>Continue\<close>.
\<close>

function spa_json_loop :: "memory \<Rightarrow> spa_json \<Rightarrow> nat \<Rightarrow> int \<Rightarrow> flow" where
  "spa_json_loop mem iter v u =
    (if cur iter < endp iter then
       (case peek mem (cur iter) of
          None \<Rightarrow> Fault
        | Some c \<Rightarrow>
            (case again c iter v u of
               Continue iter' v' u' \<Rightarrow> spa_json_loop mem (iter'\<lparr>cur := cur iter' + 1\<rparr>) v' u'
             | out \<Rightarrow> out))
     else Return iter v (if depth iter = 0 then 0 else - 1))"
  by pat_completeness auto
termination
  by (relation "measure (\<lambda>(mem, iter, v, u). endp iter - cur iter)")
     (auto dest: again_keeps_window)

declare spa_json_loop.simps [simp del]

text \<open>
  \<^verbatim>\<open>spa_json_next(iter, &value)\<close>: \<open>h\<close> is the store, \<open>iter\<close> the address of the cursor,
  \<open>v\<close> what \<^verbatim>\<open>*value\<close> holds at the call. The result is the store, \<^verbatim>\<open>*value\<close> and the
  returned \<^verbatim>\<open>int\<close>, or \<open>None\<close> after a read outside the memory.
\<close>

definition spa_json_next :: "memory \<Rightarrow> store \<Rightarrow> nat \<Rightarrow> nat \<Rightarrow> (store \<times> nat \<times> int) option" where
  "spa_json_next mem h iter v =
    (case spa_json_loop mem (h iter) v 0 of
       Return c v' r \<Rightarrow> Some (h(iter := c), v', r)
     | Return_parent c v' \<Rightarrow>
         (let h1 = h(iter := c) in
          Some (case parent c of
                  None \<Rightarrow> h1
                | Some p \<Rightarrow> h1(p := (h1 p)\<lparr>cur := cur c\<rparr>),
                v', 0))
     | _ \<Rightarrow> None)"

text \<open>
  \<^verbatim>\<open>spa_json_enter_container\<close>. Its local \<^verbatim>\<open>value\<close> is not initialised: \<open>v0\<close> is what it
  happens to hold. \<^verbatim>\<open>*value\<close> is read whenever the call of \<^verbatim>\<open>spa_json_next\<close> returned
  0 or more.
\<close>

definition spa_json_enter_container ::
    "memory \<Rightarrow> store \<Rightarrow> nat \<Rightarrow> nat \<Rightarrow> char \<Rightarrow> nat \<Rightarrow> (store \<times> int) option" where
  "spa_json_enter_container mem h iter sub type v0 =
    (case spa_json_next mem h iter v0 of
       None \<Rightarrow> None
     | Some (h1, v, r) \<Rightarrow>
         if r < 0 then Some (h1, - 1)
         else (case peek mem v of
                 None \<Rightarrow> None
               | Some c \<Rightarrow>
                   if c \<noteq> type then Some (h1, - 1)
                   else Some (spa_json_enter h1 iter sub, 1)))"

definition spa_json_enter_object :: "memory \<Rightarrow> store \<Rightarrow> nat \<Rightarrow> nat \<Rightarrow> nat \<Rightarrow> (store \<times> int) option" where
  "spa_json_enter_object mem h iter sub v0 = spa_json_enter_container mem h iter sub (CHR ''{'') v0"

definition spa_json_enter_array :: "memory \<Rightarrow> store \<Rightarrow> nat \<Rightarrow> nat \<Rightarrow> nat \<Rightarrow> (store \<times> int) option" where
  "spa_json_enter_array mem h iter sub v0 = spa_json_enter_container mem h iter sub (CHR ''['') v0"

subsection \<open>Classification of a span\<close>

text \<open>
  \<^verbatim>\<open>strcmp(s, lit)\<close> for a string literal \<open>lit\<close> (given without its terminating NUL, and
  with no NUL inside): the bytes at \<open>s\<close> are compared with the literal until they differ or
  the literal's NUL is reached. The result is the difference of the two bytes as
  \<^verbatim>\<open>unsigned char\<close>; the callers only test it against 0.
\<close>

fun strcmp :: "memory \<Rightarrow> nat \<Rightarrow> string \<Rightarrow> int option" where
  "strcmp mem s [] =
     (case peek mem s of None \<Rightarrow> None | Some a \<Rightarrow> Some (int (uchar a)))"
| "strcmp mem s (b # lit) =
     (case peek mem s of
        None \<Rightarrow> None
      | Some a \<Rightarrow> if a = b then strcmp mem (s + 1) lit else Some (int (uchar a) - int (uchar b)))"

definition spa_json_is_object :: "memory \<Rightarrow> nat \<Rightarrow> int \<Rightarrow> bool option" where
  "spa_json_is_object mem val len =
     (if 0 < len then map_option (\<lambda>c. c = CHR ''{'') (peek mem val) else Some False)"

definition spa_json_is_array :: "memory \<Rightarrow> nat \<Rightarrow> int \<Rightarrow> bool option" where
  "spa_json_is_array mem val len =
     (if 0 < len then map_option (\<lambda>c. c = CHR ''['') (peek mem val) else Some False)"

definition spa_json_is_string :: "memory \<Rightarrow> nat \<Rightarrow> int \<Rightarrow> bool option" where
  "spa_json_is_string mem val len =
     (if 1 < len then map_option (\<lambda>c. c = CHR 0x22) (peek mem val) else Some False)"

definition spa_json_is_null :: "memory \<Rightarrow> nat \<Rightarrow> int \<Rightarrow> bool option" where
  "spa_json_is_null mem val len =
     (if len = 4 then map_option (\<lambda>d. d = 0) (strcmp mem val ''null'') else Some False)"

definition spa_json_is_true :: "memory \<Rightarrow> nat \<Rightarrow> int \<Rightarrow> bool option" where
  "spa_json_is_true mem val len =
     (if len = 4 then map_option (\<lambda>d. d = 0) (strcmp mem val ''true'') else Some False)"

definition spa_json_is_false :: "memory \<Rightarrow> nat \<Rightarrow> int \<Rightarrow> bool option" where
  "spa_json_is_false mem val len =
     (if len = 5 then map_option (\<lambda>d. d = 0) (strcmp mem val ''false'') else Some False)"

definition spa_json_is_bool :: "memory \<Rightarrow> nat \<Rightarrow> int \<Rightarrow> bool option" where
  "spa_json_is_bool mem val len =
     (case spa_json_is_true mem val len of
        None \<Rightarrow> None
      | Some t \<Rightarrow> if t then Some True else spa_json_is_false mem val len)"

subsection \<open>Conversion of a span\<close>

text \<open>
  \<^verbatim>\<open>spa_json_parse_bool\<close>: the result is the returned \<^verbatim>\<open>int\<close> and what \<^verbatim>\<open>*result\<close> holds
  at the return; \<open>result\<close> is what it held at the call.
\<close>

definition spa_json_parse_bool :: "memory \<Rightarrow> nat \<Rightarrow> int \<Rightarrow> bool \<Rightarrow> (int \<times> bool) option" where
  "spa_json_parse_bool mem val len result =
    (case spa_json_is_true mem val len of
       None \<Rightarrow> None
     | Some t \<Rightarrow>
         if t then Some (1, t)
         else (case spa_json_is_false mem val len of
                 None \<Rightarrow> None
               | Some f \<Rightarrow> if \<not> (\<not> f) then Some (1, \<not> f) else Some (- 1, \<not> f)))"

text \<open>
  The loop of \<^verbatim>\<open>spa_json_parse_string\<close>: \<open>p\<close> runs up to \<open>lim\<close>, which is
  \<^verbatim>\<open>val + len - 1\<close>; \<open>out\<close> is what has been stored through \<^verbatim>\<open>result\<close> so far, in the
  order of the stores. The caller's buffer is taken to be apart from the scanned memory
  and large enough.
\<close>

function parse_string_loop :: "memory \<Rightarrow> nat \<Rightarrow> nat \<Rightarrow> char list \<Rightarrow> char list option" where
  "parse_string_loop mem p lim out =
    (if p < lim then
       (case peek mem p of
          None \<Rightarrow> None
        | Some c \<Rightarrow>
            if c = CHR 0x5C then
              (case peek mem (p + 1) of
                 None \<Rightarrow> None
               | Some e \<Rightarrow>
                   parse_string_loop mem (p + 1 + 1) lim
                     (out @ [if e = CHR ''n'' then CHR 0x0A
                             else if e = CHR ''r'' then CHR 0x0D
                             else if e = CHR ''b'' then CHR 0x08
                             else if e = CHR ''t'' then CHR 0x09
                             else e]))
            else parse_string_loop mem (p + 1) lim (out @ [c]))
     else Some out)"
  by pat_completeness auto
termination
  by (relation "measure (\<lambda>(mem, p, lim, out). lim - p)") auto

declare parse_string_loop.simps [simp del]

definition spa_json_parse_string :: "memory \<Rightarrow> nat \<Rightarrow> int \<Rightarrow> (int \<times> char list) option" where
  "spa_json_parse_string mem val len =
    (case spa_json_is_string mem val len of
       None \<Rightarrow> None
     | Some s \<Rightarrow>
         if \<not> s then Some (- 1, [])
         else (case parse_string_loop mem (val + 1) (nat (int val + len - 1)) [] of
                 None \<Rightarrow> None
               | Some out \<Rightarrow> Some (1, out @ [CHR 0x00])))"

subsection \<open>Callers\<close>

text \<open>
  A caller's loop \<^verbatim>\<open>while (spa_json_next(iter, &value) > 0);\<close> that drains a cursor. It
  gives the result of the last call. \<open>n\<close> bounds the number of calls.
\<close>

fun drain :: "nat \<Rightarrow> memory \<Rightarrow> store \<Rightarrow> nat \<Rightarrow> nat \<Rightarrow> (store \<times> nat \<times> int) option" where
  "drain 0 mem h iter v = None"
| "drain (Suc n) mem h iter v =
     (case spa_json_next mem h iter v of
        None \<Rightarrow> None
      | Some (h', v', r) \<Rightarrow> if 0 < r then drain n mem h' iter v' else Some (h', v', r))"

text \<open>
  \<open>n\<close> calls of \<^verbatim>\<open>spa_json_next\<close> on one cursor with one \<^verbatim>\<open>value\<close> variable: the returned
  values, each with the start of the span when a span was returned.
\<close>

fun next_results :: "nat \<Rightarrow> memory \<Rightarrow> store \<Rightarrow> nat \<Rightarrow> nat \<Rightarrow> (int \<times> nat option) list" where
  "next_results 0 mem h iter v = []"
| "next_results (Suc n) mem h iter v =
     (case spa_json_next mem h iter v of
        None \<Rightarrow> []
      | Some (h', v', r) \<Rightarrow>
          (r, if 0 < r then Some v' else None) # next_results n mem h' iter v')"

text \<open>Sequencing for a caller that keeps one \<^verbatim>\<open>value\<close> variable across calls.\<close>

definition then_next ::
    "memory \<Rightarrow> nat \<Rightarrow> (store \<times> nat \<times> int) option \<Rightarrow> (store \<times> nat \<times> int) option" where
  "then_next mem iter s = (case s of None \<Rightarrow> None | Some (h, v, r) \<Rightarrow> spa_json_next mem h iter v)"

definition then_enter ::
    "nat \<Rightarrow> nat \<Rightarrow> (store \<times> nat \<times> int) option \<Rightarrow> (store \<times> nat \<times> int) option" where
  "then_enter iter sub s = map_option (\<lambda>(h, v, r). (spa_json_enter h iter sub, v, r)) s"

text \<open>What a caller observes: the returned value, \<^verbatim>\<open>*value\<close>, and a cursor's fields.\<close>

definition observe :: "nat \<Rightarrow> (store \<times> nat \<times> int) option \<Rightarrow> (int \<times> nat \<times> spa_json) option" where
  "observe a s = map_option (\<lambda>(h, v, r). (r, v, h a)) s"

definition store0 :: store where
  "store0 = (\<lambda>a. SPA_JSON_INIT 0 0)"

text \<open>
  A store for \<^verbatim>\<open>[1]\<close>: the root cursor at address 0 has returned the array, the child
  at address 1 has returned the span of \<^verbatim>\<open>1\<close> and stands at the closing bracket; and the
  same store after the child's next call.
\<close>

definition child_at_close :: store where
  "child_at_close =
     (store0(0 := \<lparr>cur = 1, endp = 3, parent = None, state = STRUCT, depth = 1\<rparr>))
            (1 := \<lparr>cur = 2, endp = 3, parent = Some 0, state = STRUCT, depth = 0\<rparr>)"

definition child_closed :: store where
  "child_closed = child_at_close(0 := (child_at_close 0)\<lparr>cur := 2\<rparr>)"

text \<open>
  A buffer with a nested array: the store after the root cursor has returned the outer
  array, and the result of entering that array and draining the child.
\<close>

definition nested_sample :: memory where
  "nested_sample = ''[1,[2],3] 7 ''"

definition reported :: store where
  "reported = store0(0 := \<lparr>cur = 1, endp = 12, parent = None, state = STRUCT, depth = 1\<rparr>)"


section \<open>Definitions for the statements and the proofs\<close>

subsection \<open>The decoding of a string, as the specification words it\<close>

text \<open>
  On the bytes between the quotes: a backslash and the byte after it become one byte,
  which is LF, CR, BS or TAB for \<^verbatim>\<open>n\<close>, \<^verbatim>\<open>r\<close>, \<^verbatim>\<open>b\<close>, \<^verbatim>\<open>t\<close> and the byte itself
  otherwise (so \<^verbatim>\<open>\u\<close> gives \<^verbatim>\<open>u\<close>, and the hex digits after it stay as they are);
  every other byte is copied. \<open>escapes_closed\<close> says that no backslash of the list is
  left without a byte after it. \<open>interior\<close> is what lies between the first and the last
  byte of a span.
\<close>

definition escaped :: "char \<Rightarrow> char" where
  "escaped e =
     (if e = CHR ''n'' then CHR 0x0A else if e = CHR ''r'' then CHR 0x0D
      else if e = CHR ''b'' then CHR 0x08 else if e = CHR ''t'' then CHR 0x09 else e)"

fun unescape_spec :: "char list \<Rightarrow> char list" where
  "unescape_spec [] = []"
| "unescape_spec [c] = [c]"
| "unescape_spec (c # e # cs) =
     (if c = CHR 0x5C then escaped e # unescape_spec cs else c # unescape_spec (e # cs))"

fun escapes_closed :: "char list \<Rightarrow> bool" where
  "escapes_closed [] = True"
| "escapes_closed [c] = (c \<noteq> CHR 0x5C)"
| "escapes_closed (c # e # cs) =
     (if c = CHR 0x5C then escapes_closed cs else escapes_closed (e # cs))"

definition interior :: "memory \<Rightarrow> nat \<Rightarrow> int \<Rightarrow> char list" where
  "interior mem val len = take (nat len - 2) (drop (val + 1) mem)"

definition sample_string :: memory where
  "sample_string = [CHR 0x22, CHR ''a'', CHR 0x5C, CHR ''n'', CHR 0x5C, CHR ''u'',
                    CHR ''0'', CHR 0x5C, CHR 0x22, CHR 0x22]"

text \<open>
  The four bytes \<^verbatim>\<open>"a\"\<close>: a span that begins with a quote and whose last byte is a
  quote that a backslash precedes.
\<close>

definition escaped_quote_string :: memory where
  "escaped_quote_string = [CHR 0x22, CHR ''a'', CHR 0x5C, CHR 0x22]"

subsection \<open>The classes of bytes that the \<^verbatim>\<open>switch\<close> tells apart\<close>

definition is_sep :: "char \<Rightarrow> bool" where
  "is_sep b \<longleftrightarrow> b = CHR 0x09 \<or> b = CHR '' '' \<or> b = CHR 0x0D \<or> b = CHR 0x0A
     \<or> b = CHR '':'' \<or> b = CHR '',''"

definition is_quote :: "char \<Rightarrow> bool" where
  "is_quote b \<longleftrightarrow> b = CHR 0x22"

definition is_open :: "char \<Rightarrow> bool" where
  "is_open b \<longleftrightarrow> b = CHR ''['' \<or> b = CHR ''{''"

definition is_close :: "char \<Rightarrow> bool" where
  "is_close b \<longleftrightarrow> b = CHR ''}'' \<or> b = CHR '']''"

definition is_bare_start :: "char \<Rightarrow> bool" where
  "is_bare_start b \<longleftrightarrow> b = CHR ''-'' \<or> case_range 97 122 b \<or> case_range 65 90 b
     \<or> case_range 48 57 b"

definition is_bare_end :: "char \<Rightarrow> bool" where
  "is_bare_end b \<longleftrightarrow> b = CHR 0x09 \<or> b = CHR '' '' \<or> b = CHR 0x0D \<or> b = CHR 0x0A
     \<or> b = CHR '':'' \<or> b = CHR '','' \<or> b = CHR '']'' \<or> b = CHR ''}''"

definition is_print :: "char \<Rightarrow> bool" where
  "is_print b \<longleftrightarrow> 32 \<le> uchar b \<and> uchar b \<le> 126"

definition is_backslash :: "char \<Rightarrow> bool" where
  "is_backslash b \<longleftrightarrow> b = CHR 0x5C"

definition is_escape :: "char \<Rightarrow> bool" where
  "is_escape b \<longleftrightarrow> b = CHR 0x22 \<or> b = CHR 0x5C \<or> b = CHR ''/'' \<or> b = CHR ''b''
     \<or> b = CHR ''f'' \<or> b = CHR ''n'' \<or> b = CHR ''r'' \<or> b = CHR ''t'' \<or> b = CHR ''u''"

subsection \<open>A child cursor and the parent that skips the container\<close>

text \<open>
  While a child cursor walks through a container, the parent that skips the container in
  one call goes through the same bytes one level deeper. \<open>flat pq c\<close> is the parent's
  cursor when the child's is \<open>c\<close>: the same window, the parent's own \<open>parent\<close> field, the
  same scan state (a fresh child is in \<^verbatim>\<open>__NONE\<close>, the parent in \<^verbatim>\<open>__STRUCT\<close>), and a depth
  one higher. \<open>shallow\<close> bounds a depth so that neither cursor's counter wraps around.
  \<open>inside\<close> is what holds of the child's cursor and \<^verbatim>\<open>utf8_remain\<close> all along: a cursor
  in \<^verbatim>\<open>__NONE\<close> has depth 0, \<^verbatim>\<open>utf8_remain\<close> is 0 outside \<^verbatim>\<open>__UTF8\<close>, and the depth plus
  the bytes still to read stay below \<open>2 ^ 32\<close>.
\<close>

definition shallow :: "32 word \<Rightarrow> bool" where
  "shallow d \<longleftrightarrow> unat d + 2 < 2 ^ 32"

definition flat :: "nat option \<Rightarrow> spa_json \<Rightarrow> spa_json" where
  "flat pq c = \<lparr>cur = cur c, endp = endp c, parent = pq,
                state = (if state c = NONE then STRUCT else state c), depth = depth c + 1\<rparr>"

definition inside :: "spa_json \<Rightarrow> int \<Rightarrow> bool" where
  "inside c u \<longleftrightarrow> (state c = NONE \<longrightarrow> depth c = 0) \<and> (state c \<noteq> UTF8 \<longrightarrow> u = 0)
     \<and> unat (depth c) + (endp c - cur c) + 1 < 2 ^ 32"

subsection \<open>Runs that differ in \<^verbatim>\<open>*value\<close> only\<close>




subsection \<open>Where \<^verbatim>\<open>*value\<close> points during a token\<close>

text \<open>
  In \<^verbatim>\<open>__BARE\<close> at a byte that starts a bare token; in \<^verbatim>\<open>__STRING\<close> and \<^verbatim>\<open>__UTF8\<close> at the
  opening quote, with every backslash between it and the cursor followed by its byte;
  in \<^verbatim>\<open>__ESC\<close> the same up to the backslash just before the cursor.
\<close>

definition tok :: "memory \<Rightarrow> spa_json \<Rightarrow> nat \<Rightarrow> bool" where
  "tok mem c v \<longleftrightarrow>
     (state c = BARE \<longrightarrow> (\<exists>b. peek mem v = Some b \<and> is_bare_start b))
     \<and> (state c = STRING \<or> state c = UTF8 \<longrightarrow>
          v < cur c \<and> peek mem v = Some (CHR 0x22)
          \<and> escapes_closed (take (cur c - (v + 1)) (drop (v + 1) mem)))
     \<and> (state c = ESC \<longrightarrow>
          v + 1 < cur c \<and> peek mem v = Some (CHR 0x22)
          \<and> escapes_closed (take (cur c - 1 - (v + 1)) (drop (v + 1) mem))
          \<and> peek mem (cur c - 1) = Some (CHR 0x5C))"

subsection \<open>A bound on the calls of a drain\<close>

text \<open>
  Every call that returns a span moves the cursor forward or takes it out of \<^verbatim>\<open>__BARE\<close>,
  so \<open>calls_left\<close> decreases.
\<close>

definition calls_left :: "spa_json \<Rightarrow> nat" where
  "calls_left c = 2 * (endp c - cur c) + (if state c = BARE then 1 else 0)"

section \<open>Facts about the loop\<close>

lemma loop_end:
  "\<not> cur c < endp c \<Longrightarrow> spa_json_loop mem c v u = Return c v (if depth c = 0 then 0 else - 1)"
  by (subst spa_json_loop.simps) simp

lemma loop_fault:
  "cur c < endp c \<Longrightarrow> peek mem (cur c) = None \<Longrightarrow> spa_json_loop mem c v u = Fault"
  by (subst spa_json_loop.simps) simp

lemma loop_step:
  "cur c < endp c \<Longrightarrow> peek mem (cur c) = Some b \<Longrightarrow> again b c v u = Continue c1 v1 u1 \<Longrightarrow>
   spa_json_loop mem c v u = spa_json_loop mem (c1\<lparr>cur := cur c1 + 1\<rparr>) v1 u1"
  by (subst spa_json_loop.simps) simp

lemma loop_stop:
  "cur c < endp c \<Longrightarrow> peek mem (cur c) = Some b \<Longrightarrow> \<forall>c1 v1 u1. again b c v u \<noteq> Continue c1 v1 u1 \<Longrightarrow>
   spa_json_loop mem c v u = again b c v u"
  by (subst spa_json_loop.simps) (simp split: flow.splits)

lemma loop_cases [consumes 1, case_names at_end fault stop step]:
  assumes "spa_json_loop mem c v u = out"
    and "\<And>c v u. \<not> cur c < endp c \<Longrightarrow> P c v u (Return c v (if depth c = 0 then 0 else - 1))"
    and "\<And>c v u. cur c < endp c \<Longrightarrow> peek mem (cur c) = None \<Longrightarrow> P c v u Fault"
    and "\<And>c v u b. cur c < endp c \<Longrightarrow> peek mem (cur c) = Some b \<Longrightarrow>
           \<forall>c1 v1 u1. again b c v u \<noteq> Continue c1 v1 u1 \<Longrightarrow> P c v u (again b c v u)"
    and "\<And>c v u b c1 v1 u1 out. cur c < endp c \<Longrightarrow> peek mem (cur c) = Some b \<Longrightarrow>
           again b c v u = Continue c1 v1 u1 \<Longrightarrow>
           spa_json_loop mem (c1\<lparr>cur := cur c1 + 1\<rparr>) v1 u1 = out \<Longrightarrow>
           P (c1\<lparr>cur := cur c1 + 1\<rparr>) v1 u1 out \<Longrightarrow> P c v u out"
  shows "P c v u out"
  using assms(1)
proof (induction m \<equiv> mem c v u arbitrary: out rule: spa_json_loop.induct)
  case (1 c v u)
  show ?case
  proof (cases "cur c < endp c")
    case False
    with 1(2) assms(2) [of c v u] show ?thesis by (auto simp: loop_end)
  next
    case True
    show ?thesis
    proof (cases "peek mem (cur c)")
      case None
      with True 1(2) assms(3) [of c v u] show ?thesis by (auto simp: loop_fault)
    next
      case (Some b)
      show ?thesis
      proof (cases "\<exists>c1 v1 u1. again b c v u = Continue c1 v1 u1")
        case False
        with True Some 1(2) assms(4) [of c b v u] show ?thesis by (auto simp: loop_stop)
      next
        case True
        then obtain c1 v1 u1 where a: "again b c v u = Continue c1 v1 u1" by blast
        from \<open>cur c < endp c\<close> Some a 1(2)
        have l: "spa_json_loop mem (c1\<lparr>cur := cur c1 + 1\<rparr>) v1 u1 = out"
          by (simp add: loop_step)
        from 1(1) [OF \<open>cur c < endp c\<close> Some a l] assms(5) [OF \<open>cur c < endp c\<close> Some a l]
        show ?thesis by blast
      qed
    qed
  qed
qed


lemma again_Continue:
  "again b c v u = Continue c1 v1 u1 \<Longrightarrow>
   cur c1 = cur c \<and> endp c1 = endp c \<and> parent c1 = parent c"
  by (cases "state c") (clarsimp simp: again_state split: if_splits)+

lemma again_Return:
  "again b c v u = Return c' v' r \<Longrightarrow>
   endp c' = endp c \<and> parent c' = parent c \<and> cur c \<le> cur c' \<and> cur c' \<le> cur c + 1"
  by (cases "state c") (clarsimp simp: again_state split: if_splits)+

lemma again_Return_parent:
  "again b c v u = Return_parent c' v' \<Longrightarrow>
   (b = CHR ''}'' \<or> b = CHR '']'') \<and> c' = c\<lparr>state := STRUCT, depth := 0\<rparr> \<and> v' = v"
  by (cases "state c") (clarsimp simp: again_state split: if_splits)+

lemma again_not_Fault: "again b c v u \<noteq> Fault"
  by (cases "state c") (clarsimp simp: again_state split: if_splits)+

lemma again_close:
  "state c = STRUCT \<Longrightarrow> depth c = 0 \<Longrightarrow> b = CHR ''}'' \<or> b = CHR '']'' \<Longrightarrow>
   again b c v u = Return_parent c v"
  by (auto simp: again_STRUCT)

lemma loop_not_Continue:
  assumes "spa_json_loop mem c v u = out"
  shows "out \<noteq> Continue c' v' u'"
  using assms by (induction rule: loop_cases) auto

lemma loop_Return:
  assumes "spa_json_loop mem c v u = out" and "out = Return c' v' r"
  shows "endp c' = endp c \<and> parent c' = parent c \<and> cur c \<le> cur c'
     \<and> (cur c \<le> endp c \<longrightarrow> cur c' \<le> endp c)"
  using assms
proof (induction rule: loop_cases)
  case (stop c v u b)
  from again_Return [of b c v u c' v' r] stop show ?case by auto
next
  case (step c v u b c1 v1 u1 out)
  from again_Continue [OF step(3)] step show ?case by auto
qed auto

lemma loop_Return_parent:
  assumes "spa_json_loop mem c v u = out" and "out = Return_parent c' v'"
  shows "endp c' = endp c \<and> parent c' = parent c \<and> cur c \<le> cur c' \<and> cur c' < endp c
     \<and> (peek mem (cur c') = Some (CHR ''}'') \<or> peek mem (cur c') = Some (CHR '']''))
     \<and> depth c' = 0 \<and> state c' = STRUCT"
  using assms
proof (induction rule: loop_cases)
  case (stop c v u b)
  from again_Return_parent [of b c v u c' v'] stop show ?case by auto
next
  case (step c v u b c1 v1 u1 out)
  from again_Continue [OF step(3)] step show ?case by auto
qed auto

lemma loop_at_close:
  assumes "cur c < endp c" "state c = STRUCT" "depth c = 0"
    and "peek mem (cur c) = Some (CHR ''}'') \<or> peek mem (cur c) = Some (CHR '']'')"
  shows "spa_json_loop mem c v u = Return_parent c v"
proof -
  from assms(4) obtain b where b: "peek mem (cur c) = Some b" "b = CHR ''}'' \<or> b = CHR '']''"
    by auto
  from again_close [OF assms(2,3) b(2)] loop_stop [OF assms(1) b(1), of v u]
  show ?thesis by simp
qed

subsection \<open>The call on the store\<close>

lemma next_Return:
  "spa_json_loop mem (h iter) v 0 = Return c' v' r \<Longrightarrow>
   spa_json_next mem h iter v = Some (h(iter := c'), v', r)"
  by (simp add: spa_json_next_def)

lemma next_Return_parent:
  "spa_json_loop mem (h iter) v 0 = Return_parent c' v' \<Longrightarrow>
   spa_json_next mem h iter v =
     Some (case parent c' of None \<Rightarrow> h(iter := c')
           | Some p \<Rightarrow> (h(iter := c'))(p := ((h(iter := c')) p)\<lparr>cur := cur c'\<rparr>), v', 0)"
  by (simp add: spa_json_next_def Let_def)

lemma next_cases:
  assumes "spa_json_next mem h iter v = Some (h', v', r)"
  obtains (Return) c' where "spa_json_loop mem (h iter) v 0 = Return c' v' r" "h' = h(iter := c')"
  | (Return_parent) c' where "spa_json_loop mem (h iter) v 0 = Return_parent c' v'" "r = 0"
      "h' = (case parent c' of None \<Rightarrow> h(iter := c')
           | Some p \<Rightarrow> (h(iter := c'))(p := ((h(iter := c')) p)\<lparr>cur := cur c'\<rparr>))"
  using assms by (auto simp: spa_json_next_def Let_def split: flow.splits)

lemma next_at_close:
  assumes "cur (h iter) < endp (h iter)" "state (h iter) = STRUCT" "depth (h iter) = 0"
    and "peek mem (cur (h iter)) = Some (CHR ''}'') \<or> peek mem (cur (h iter)) = Some (CHR '']'')"
    and "parent (h iter) = Some p"
  shows "spa_json_next mem h iter v = Some (h(p := (h p)\<lparr>cur := cur (h iter)\<rparr>), v, 0)"
proof -
  have "h(iter := h iter) = h" by simp
  with next_Return_parent [of mem h iter v "h iter" v] loop_at_close [OF assms(1-4), of v 0] assms(5)
  show ?thesis by simp
qed

lemma next_child_at_close:
  "spa_json_next ''[1]'' child_at_close 1 7 = Some (child_closed, 7, 0)"
  unfolding child_closed_def
  by (subst next_at_close [where p = 0]) (simp_all add: child_at_close_def peek_def)

section \<open>The scanner at the end of the buffer\<close>

text \<open>
  C1. The specification: scanning a root cursor to the end of scope returns every top-level value
  once, in source order, and on the 10 bytes \<^verbatim>\<open>true false\<close> it returns the span of
  \<^verbatim>\<open>true\<close>, then the span of \<^verbatim>\<open>false\<close>, and only then the end of scope. The code: the
  first call returns 4 with \<^verbatim>\<open>*value\<close> at offset 0; the second call starts the bare token
  at offset 5, runs into the end of the buffer in the state \<^verbatim>\<open>__BARE\<close> and returns 0, since
  the \<^verbatim>\<open>return\<close> after the loop looks at the depth only. The span of \<^verbatim>\<open>false\<close> is never
  returned.
\<close>

theorem true_false_last_token_dropped:
  "observe 0 (spa_json_next ''true false'' (spa_json_init store0 0 0 10) 0 0)
     = Some (4, 0, \<lparr>cur = 4, endp = 10, parent = None, state = STRUCT, depth = 0\<rparr>)
   \<and> observe 0 (then_next ''true false'' 0
        (spa_json_next ''true false'' (spa_json_init store0 0 0 10) 0 0))
     = Some (0, 5, \<lparr>cur = 10, endp = 10, parent = None, state = BARE, depth = 0\<rparr>)"
  by code_simp

text \<open>With a separator after it, the last bare token is returned.\<close>

lemma true_false_with_separator:
  "next_results 3 ''true false '' (spa_json_init store0 0 0 11) 0 0
     = [(4, Some 0), (5, Some 5), (0, None)]"
  by code_simp

text \<open>
  C2. The specification: on a buffer that ends inside a quoted string \<^verbatim>\<open>spa_json_next\<close> returns a
  negative value, as on the 4 bytes \<^verbatim>\<open>"abc\<close>. The code: the call reaches the end of the
  buffer in the state \<^verbatim>\<open>__STRING\<close> with depth 0 and returns 0, the value for the end of
  scope.
\<close>

theorem unterminated_string_returns_0:
  "observe 0 (spa_json_next [CHR 0x22, CHR ''a'', CHR ''b'', CHR ''c'']
                (spa_json_init store0 0 0 4) 0 0)
     = Some (0, 0, \<lparr>cur = 4, endp = 4, parent = None, state = STRING, depth = 0\<rparr>)"
  by code_simp

text \<open>
  Inside a container that is being skipped the same end of the buffer is an error: on
  \<^verbatim>\<open>["abc\<close> the first call returns the array and the second returns -1.
\<close>

lemma unterminated_in_container_returns_minus_1:
  "next_results 2 [CHR ''['', CHR 0x22, CHR ''a'', CHR ''b'', CHR ''c'']
     (spa_json_init store0 0 0 5) 0 0 = [(1, Some 0), (- 1, None)]"
  by code_simp

section \<open>Classification and conversion\<close>

text \<open>
  C3. The specification: \<^verbatim>\<open>spa_json_is_true\<close>, \<^verbatim>\<open>spa_json_is_false\<close> and \<^verbatim>\<open>spa_json_is_null\<close> compare
  the bytes of the span with the literal, whatever follows the span. The code compares
  with \<^verbatim>\<open>strcmp\<close>, which reads on to a NUL: the spans below hold exactly the literal and
  are followed by a space, a bracket and a comma, and all three predicates are false.
\<close>

theorem literal_match_reads_past_span:
  "take 4 (drop 0 ''true false'') = ''true'' \<and> spa_json_is_true ''true false'' 0 4 = Some False
   \<and> take 5 (drop 1 ''[false]'') = ''false'' \<and> spa_json_is_false ''[false]'' 1 5 = Some False
   \<and> take 4 (drop 0 ''null,'') = ''null'' \<and> spa_json_is_null ''null,'' 0 4 = Some False"
  by code_simp

text \<open>
  What the three predicates compute: the length is the literal's, the span holds the
  literal, and the byte after the span is a NUL.
\<close>

lemma uchar_inj: "uchar a = uchar b \<longleftrightarrow> a = b"
  by (simp add: uchar_def)

lemma uchar_0: "uchar a = 0 \<longleftrightarrow> a = CHR 0x00"
  using uchar_inj [of a "CHR 0x00"] by (simp add: uchar_def)

lemma strcmp_0:
  "CHR 0x00 \<notin> set lit \<Longrightarrow>
   strcmp mem s lit = Some 0 \<longleftrightarrow>
     s + length lit < length mem \<and> take (length lit) (drop s mem) = lit
     \<and> mem ! (s + length lit) = CHR 0x00"
proof (induction lit arbitrary: s)
  case Nil
  show ?case by (auto simp: peek_def uchar_0)
next
  case (Cons b lit)
  show ?case
  proof (cases "s < length mem")
    case False
    then show ?thesis by (simp add: peek_def)
  next
    case True
    then have d: "drop s mem = mem ! s # drop (s + 1) mem"
      by (simp add: Cons_nth_drop_Suc)
    show ?thesis
    proof (cases "mem ! s = b")
      case e: True
      with Cons True d show ?thesis by (auto simp: peek_def)
    next
      case False
      with True d show ?thesis by (auto simp: peek_def uchar_inj)
    qed
  qed
qed

lemma is_true_iff:
  "spa_json_is_true mem val len = Some True \<longleftrightarrow>
     len = 4 \<and> val + 4 < length mem \<and> take 4 (drop val mem) = ''true''
     \<and> mem ! (val + 4) = CHR 0x00"
proof -
  have l: "length ''true'' = 4" and n: "CHR 0x00 \<notin> set ''true''" by simp_all
  note s = strcmp_0 [OF n, of mem val, unfolded l]
  show ?thesis
  proof (cases "len = 4")
    case False
    then show ?thesis by (simp add: spa_json_is_true_def)
  next
    case True
    have "spa_json_is_true mem val len = Some True \<longleftrightarrow> strcmp mem val ''true'' = Some 0"
      using True by (cases "strcmp mem val ''true''") (simp_all add: spa_json_is_true_def del: strcmp.simps)
    with s True show ?thesis by simp
  qed
qed

lemma is_false_iff:
  "spa_json_is_false mem val len = Some True \<longleftrightarrow>
     len = 5 \<and> val + 5 < length mem \<and> take 5 (drop val mem) = ''false''
     \<and> mem ! (val + 5) = CHR 0x00"
proof -
  have l: "length ''false'' = 5" and n: "CHR 0x00 \<notin> set ''false''" by simp_all
  note s = strcmp_0 [OF n, of mem val, unfolded l]
  show ?thesis
  proof (cases "len = 5")
    case False
    then show ?thesis by (simp add: spa_json_is_false_def)
  next
    case True
    have "spa_json_is_false mem val len = Some True \<longleftrightarrow> strcmp mem val ''false'' = Some 0"
      using True by (cases "strcmp mem val ''false''") (simp_all add: spa_json_is_false_def del: strcmp.simps)
    with s True show ?thesis by simp
  qed
qed

lemma is_null_iff:
  "spa_json_is_null mem val len = Some True \<longleftrightarrow>
     len = 4 \<and> val + 4 < length mem \<and> take 4 (drop val mem) = ''null''
     \<and> mem ! (val + 4) = CHR 0x00"
proof -
  have l: "length ''null'' = 4" and n: "CHR 0x00 \<notin> set ''null''" by simp_all
  note s = strcmp_0 [OF n, of mem val, unfolded l]
  show ?thesis
  proof (cases "len = 4")
    case False
    then show ?thesis by (simp add: spa_json_is_null_def)
  next
    case True
    have "spa_json_is_null mem val len = Some True \<longleftrightarrow> strcmp mem val ''null'' = Some 0"
      using True by (cases "strcmp mem val ''null''") (simp_all add: spa_json_is_null_def del: strcmp.simps)
    with s True show ?thesis by simp
  qed
qed

text \<open>
  C10. When the span is neither true nor false for the two predicates,
  \<^verbatim>\<open>spa_json_parse_bool\<close> returns -1 and has stored \<^verbatim>\<open>true\<close> in \<^verbatim>\<open>*result\<close>, whatever
  \<^verbatim>\<open>*result\<close> held before.
\<close>

theorem parse_bool_failure_sets_true:
  "spa_json_is_true mem val len = Some False \<Longrightarrow>
   spa_json_is_false mem val len = Some False \<Longrightarrow>
   spa_json_parse_bool mem val len result = Some (- 1, True)"
  by (simp add: spa_json_parse_bool_def)

theorem parse_bool_failure_sets_true_witness:
  "spa_json_is_true ''null'' 0 4 = Some False \<and> spa_json_is_false ''null'' 0 4 = Some False
   \<and> spa_json_parse_bool ''null'' 0 4 False = Some (- 1, True)"
proof -
  have t: "spa_json_is_true ''null'' 0 4 = Some False" by code_simp
  have f: "spa_json_is_false ''null'' 0 4 = Some False" by code_simp
  from parse_bool_failure_sets_true [OF t f, of False] t f show ?thesis by simp
qed

text \<open>The only failure of \<^verbatim>\<open>spa_json_parse_bool\<close> is this one.\<close>

lemma parse_bool_not_1:
  "spa_json_parse_bool mem val len result = Some (r, b) \<Longrightarrow> r \<noteq> 1 \<Longrightarrow>
   r = - 1 \<and> b \<and> spa_json_is_true mem val len = Some False
   \<and> spa_json_is_false mem val len = Some False"
  by (auto simp: spa_json_parse_bool_def split: option.splits if_splits)

section \<open>Entering a container\<close>

text \<open>
  C5. The specification: \<^verbatim>\<open>spa_json_enter_container\<close> returns -1 and leaves \<^verbatim>\<open>sub\<close> alone whenever
  its call of \<^verbatim>\<open>spa_json_next\<close> returns no container span, also when that call returns the
  end of scope. The code tests \<^verbatim>\<open>spa_json_next(iter, &value) < 0\<close>, so a return of 0 goes
  on to compare \<^verbatim>\<open>*value\<close> with the type. On \<^verbatim>\<open>[{}]\<close>, after the root cursor has returned
  the array: the next call skips the object, storing its start in \<^verbatim>\<open>*value\<close>, and returns 0
  at the end of the buffer; \<^verbatim>\<open>spa_json_enter_object\<close> then finds \<^verbatim>\<open>{\<close> at \<^verbatim>\<open>*value\<close>,
  initialises \<^verbatim>\<open>sub\<close> (the cursor at address 1) and returns 1.
\<close>

theorem enter_object_after_end_of_scope:
  "observe 0 (then_next ''[{}]'' 0 (spa_json_next ''[{}]'' (spa_json_init store0 0 0 4) 0 0))
     = Some (0, 1, \<lparr>cur = 4, endp = 4, parent = None, state = STRUCT, depth = 0\<rparr>)
   \<and> map_option (\<lambda>(h, r). (r, h 1))
        (case spa_json_next ''[{}]'' (spa_json_init store0 0 0 4) 0 0 of
           None \<Rightarrow> None
         | Some (h, v, r) \<Rightarrow> spa_json_enter_object ''[{}]'' h 0 1 0)
     = Some (1, \<lparr>cur = 4, endp = 4, parent = Some 0, state = NONE, depth = 0\<rparr>)"
  by code_simp

section \<open>The end of a child's scope\<close>

text \<open>
  C4. The specification: at a closing delimiter with depth 0, a cursor with a parent stores the
  position one past the delimiter in \<^verbatim>\<open>parent->cur\<close> and returns 0. The code stores
  \<^verbatim>\<open>iter->cur\<close> as it is, the position of the delimiter itself (the parent, whose depth is
  1, has to read the delimiter to come back to depth 0). On \<^verbatim>\<open>[1]\<close> the child stops at the
  bracket at offset 2, and the root's \<^verbatim>\<open>cur\<close> is 2 afterwards, not 3.
\<close>

theorem close_not_one_past_counterexample:
  "observe 0 (then_next ''[1]'' 1 (then_next ''[1]'' 1 (then_enter 0 1
      (spa_json_next ''[1]'' (spa_json_init store0 0 0 3) 0 0))))
     = Some (0, 1, \<lparr>cur = 2, endp = 3, parent = None, state = STRUCT, depth = 1\<rparr>)
   \<and> peek ''[1]'' 2 = Some (CHR '']'') \<and> (2::nat) \<noteq> 2 + 1"
  by code_simp

text \<open>
  C4, corrected: when a call leaves the loop in the branch for a closing delimiter at
  depth 0 (\<open>Return_parent\<close>) and the cursor has a parent \<open>p\<close>, the byte at the cursor is
  \<^verbatim>\<open>}\<close> or \<^verbatim>\<open>]\<close>, the call returns 0, and both \<^verbatim>\<open>parent->cur\<close> and \<^verbatim>\<open>iter->cur\<close> are the
  position of that byte.
\<close>

theorem close_stores_delimiter_position:
  assumes "spa_json_loop mem (h iter) v 0 = Return_parent c v'" and "parent (h iter) = Some p"
  shows "(peek mem (cur c) = Some (CHR ''}'') \<or> peek mem (cur c) = Some (CHR '']''))
     \<and> depth c = 0
     \<and> map_option (\<lambda>(h', v'', r). (r, v'', cur (h' p), cur (h' iter)))
          (spa_json_next mem h iter v) = Some (0, v', cur c, cur c)"
proof -
  from loop_Return_parent [OF assms(1) refl] assms(2)
  have c: "parent c = Some p" "depth c = 0"
    "peek mem (cur c) = Some (CHR ''}'') \<or> peek mem (cur c) = Some (CHR '']'')"
    by auto
  from next_Return_parent [of mem h iter v c v'] assms(1) c show ?thesis by simp
qed

theorem close_stores_delimiter_position_witness:
  "spa_json_loop ''[1]'' (child_at_close 1) 7 0
     = Return_parent \<lparr>cur = 2, endp = 3, parent = Some 0, state = STRUCT, depth = 0\<rparr> 7
   \<and> parent (child_at_close 1) = Some 0
   \<and> peek ''[1]'' 2 = Some (CHR '']'')
   \<and> map_option (\<lambda>(h', v'', r). (r, v'', cur (h' 0), cur (h' 1)))
        (spa_json_next ''[1]'' child_at_close 1 7) = Some (0, 7, 2, 2)"
proof -
  have l: "spa_json_loop ''[1]'' (child_at_close 1) 7 0
     = Return_parent \<lparr>cur = 2, endp = 3, parent = Some 0, state = STRUCT, depth = 0\<rparr> 7"
    by code_simp
  have p: "parent (child_at_close 1) = Some 0"
    by (simp add: child_at_close_def)
  from close_stores_delimiter_position [where h = child_at_close and iter = 1, OF l p] l p
  show ?thesis by (simp add: peek_def)
qed




text \<open>
  C8. The specification: \<^verbatim>\<open>cur <= end\<close> holds around every call and \<^verbatim>\<open>cur\<close> never
  decreases, also under the store into the parent. The code stores the child's \<^verbatim>\<open>cur\<close> in
  the parent whatever the parent's \<^verbatim>\<open>cur\<close> is. On \<^verbatim>\<open>[7],8 \<close>, first: the root returns the
  array and the child is entered; the root is called again, skips the array, returns the
  span of \<^verbatim>\<open>8\<close> and stands at 5; the child is then drained, and its last call sets the
  root's \<^verbatim>\<open>cur\<close> to 2. Second: the child is drained at once (the root's \<^verbatim>\<open>cur\<close> becomes
  2), the root returns the span of \<^verbatim>\<open>8\<close> and stands at 5, and one more call of the child
  sets the root's \<^verbatim>\<open>cur\<close> to 2.
\<close>

theorem parent_cur_decreases_counterexample:
  "observe 0 (then_next ''[7],8 '' 0 (then_enter 0 1
      (spa_json_next ''[7],8 '' (spa_json_init store0 0 0 6) 0 0)))
     = Some (1, 4, \<lparr>cur = 5, endp = 6, parent = None, state = STRUCT, depth = 0\<rparr>)
   \<and> observe 0 (then_next ''[7],8 '' 1 (then_next ''[7],8 '' 1 (then_next ''[7],8 '' 0
      (then_enter 0 1 (spa_json_next ''[7],8 '' (spa_json_init store0 0 0 6) 0 0)))))
     = Some (0, 1, \<lparr>cur = 2, endp = 6, parent = None, state = STRUCT, depth = 0\<rparr>)
   \<and> observe 0 (then_next ''[7],8 '' 0 (then_next ''[7],8 '' 1 (then_next ''[7],8 '' 1
      (then_enter 0 1 (spa_json_next ''[7],8 '' (spa_json_init store0 0 0 6) 0 0)))))
     = Some (1, 4, \<lparr>cur = 5, endp = 6, parent = None, state = STRUCT, depth = 0\<rparr>)
   \<and> observe 0 (then_next ''[7],8 '' 1 (then_next ''[7],8 '' 0 (then_next ''[7],8 '' 1
      (then_next ''[7],8 '' 1 (then_enter 0 1
        (spa_json_next ''[7],8 '' (spa_json_init store0 0 0 6) 0 0))))))
     = Some (0, 4, \<lparr>cur = 2, endp = 6, parent = None, state = STRUCT, depth = 0\<rparr>)"
  by code_simp

text \<open>
  C8, corrected. A call of \<^verbatim>\<open>spa_json_next\<close> never decreases the \<^verbatim>\<open>cur\<close> of its own
  cursor, keeps its \<^verbatim>\<open>end\<close>, and keeps \<^verbatim>\<open>cur <= end\<close>. For any other cursor \<open>a\<close> (the
  parent is one): \<^verbatim>\<open>end\<close> is kept; if \<open>a\<close> stood at or before the called cursor, its
  \<^verbatim>\<open>cur\<close> does not decrease and it still stands at or before the called cursor; and
  \<^verbatim>\<open>cur <= end\<close> is kept when the called cursor's window ends within that of \<open>a\<close>.
  \<^verbatim>\<open>spa_json_enter\<close> writes \<open>sub\<close> only, with the \<^verbatim>\<open>cur\<close> and \<^verbatim>\<open>end\<close> of \<open>iter\<close>.
\<close>

theorem cur_bounds_and_order:
  "(spa_json_next mem h iter v = Some (h', v', r) \<longrightarrow>
      cur (h iter) \<le> cur (h' iter) \<and> endp (h' iter) = endp (h iter)
      \<and> (cur (h iter) \<le> endp (h iter) \<longrightarrow> cur (h' iter) \<le> endp (h' iter))
      \<and> (\<forall>a. a \<noteq> iter \<longrightarrow>
            endp (h' a) = endp (h a)
            \<and> (cur (h a) \<le> cur (h iter) \<longrightarrow> cur (h a) \<le> cur (h' a) \<and> cur (h' a) \<le> cur (h' iter))
            \<and> (cur (h a) \<le> endp (h a) \<and> cur (h iter) \<le> endp (h iter)
                 \<and> endp (h iter) \<le> endp (h a) \<longrightarrow> cur (h' a) \<le> endp (h' a))))
   \<and> cur (spa_json_enter h iter sub sub) = cur (h iter)
   \<and> endp (spa_json_enter h iter sub sub) = endp (h iter)
   \<and> (\<forall>a. a \<noteq> sub \<longrightarrow> spa_json_enter h iter sub a = h a)"
proof -
  have "cur (h iter) \<le> cur (h' iter) \<and> endp (h' iter) = endp (h iter)
      \<and> (cur (h iter) \<le> endp (h iter) \<longrightarrow> cur (h' iter) \<le> endp (h' iter))
      \<and> (\<forall>a. a \<noteq> iter \<longrightarrow>
            endp (h' a) = endp (h a)
            \<and> (cur (h a) \<le> cur (h iter) \<longrightarrow> cur (h a) \<le> cur (h' a) \<and> cur (h' a) \<le> cur (h' iter))
            \<and> (cur (h a) \<le> endp (h a) \<and> cur (h iter) \<le> endp (h iter)
                 \<and> endp (h iter) \<le> endp (h a) \<longrightarrow> cur (h' a) \<le> endp (h' a)))"
    if n: "spa_json_next mem h iter v = Some (h', v', r)"
    using n
  proof (cases rule: next_cases)
    case (Return c')
    from loop_Return [OF Return(1) refl] Return(2) show ?thesis by auto
  next
    case (Return_parent c')
    from loop_Return_parent [OF Return_parent(1) refl]
    have c: "endp c' = endp (h iter)" "cur (h iter) \<le> cur c'" "cur c' < endp (h iter)"
      by auto
    show ?thesis
    proof (cases "parent c'")
      case None
      with Return_parent(3) c show ?thesis by auto
    next
      case (Some p)
      with Return_parent(3) c show ?thesis by auto
    qed
  qed
  then have n: "spa_json_next mem h iter v = Some (h', v', r) \<longrightarrow>
      cur (h iter) \<le> cur (h' iter) \<and> endp (h' iter) = endp (h iter)
      \<and> (cur (h iter) \<le> endp (h iter) \<longrightarrow> cur (h' iter) \<le> endp (h' iter))
      \<and> (\<forall>a. a \<noteq> iter \<longrightarrow>
            endp (h' a) = endp (h a)
            \<and> (cur (h a) \<le> cur (h iter) \<longrightarrow> cur (h a) \<le> cur (h' a) \<and> cur (h' a) \<le> cur (h' iter))
            \<and> (cur (h a) \<le> endp (h a) \<and> cur (h iter) \<le> endp (h iter)
                 \<and> endp (h iter) \<le> endp (h a) \<longrightarrow> cur (h' a) \<le> endp (h' a)))"
    by blast
  have e: "cur (spa_json_enter h iter sub sub) = cur (h iter)
     \<and> endp (spa_json_enter h iter sub sub) = endp (h iter)
     \<and> (\<forall>a. a \<noteq> sub \<longrightarrow> spa_json_enter h iter sub a = h a)"
    by (simp add: spa_json_enter_def SPA_JSON_ENTER_def)
  from n e show ?thesis by (rule conjI)
qed

theorem cur_bounds_and_order_witness:
  "spa_json_next ''[1]'' child_at_close 1 7 = Some (child_closed, 7, 0)
   \<and> cur (child_at_close 1) \<le> cur (child_closed 1)
   \<and> cur (child_closed 1) \<le> endp (child_closed 1)
   \<and> cur (child_at_close 0) \<le> cur (child_closed 0)
   \<and> cur (child_closed 0) \<le> cur (child_closed 1)
   \<and> cur (child_closed 0) \<le> endp (child_closed 0)"
proof -
  have "cur (child_at_close 0) \<le> cur (child_at_close 1)"
    "cur (child_at_close 0) \<le> endp (child_at_close 0)"
    "cur (child_at_close 1) \<le> endp (child_at_close 1)"
    "endp (child_at_close 1) \<le> endp (child_at_close 0)" "(0::nat) \<noteq> 1"
    by (simp_all add: child_at_close_def)
  with cur_bounds_and_order
         [of "''[1]''" child_at_close 1 7 child_closed 7 0 1]
       next_child_at_close
  show ?thesis by auto
qed

section \<open>Decoding a string span\<close>

text \<open>The loop of \<^verbatim>\<open>spa_json_parse_string\<close> against \<open>unescape_spec\<close>.\<close>

lemma peek_Some: "p < length mem \<Longrightarrow> peek mem p = Some (mem ! p)"
  by (simp add: peek_def)

lemma window_Cons:
  "p < lim \<Longrightarrow> lim \<le> length mem \<Longrightarrow>
   take (lim - p) (drop p mem) = mem ! p # take (lim - (p + 1)) (drop (p + 1) mem)"
  by (simp add: Cons_nth_drop_Suc [symmetric] take_Suc_Cons [symmetric] Suc_diff_Suc del: take_Suc_Cons)

lemma unescape_spec_plain: "c \<noteq> CHR 0x5C \<Longrightarrow> unescape_spec (c # cs) = c # unescape_spec cs"
  by (cases cs) simp_all

lemma escapes_closed_plain: "c \<noteq> CHR 0x5C \<Longrightarrow> escapes_closed (c # cs) = escapes_closed cs"
  by (cases cs) simp_all

lemma psl_end: "\<not> p < lim \<Longrightarrow> parse_string_loop mem p lim out = Some out"
  by (subst parse_string_loop.simps) simp

lemma psl_fault: "p < lim \<Longrightarrow> peek mem p = None \<Longrightarrow> parse_string_loop mem p lim out = None"
  by (subst parse_string_loop.simps) simp

lemma psl_plain:
  "p < lim \<Longrightarrow> peek mem p = Some c \<Longrightarrow> c \<noteq> CHR 0x5C \<Longrightarrow>
   parse_string_loop mem p lim out = parse_string_loop mem (p + 1) lim (out @ [c])"
  by (subst parse_string_loop.simps) simp

lemma psl_esc:
  "p < lim \<Longrightarrow> peek mem p = Some (CHR 0x5C) \<Longrightarrow> peek mem (p + 1) = Some e \<Longrightarrow>
   parse_string_loop mem p lim out = parse_string_loop mem (p + 1 + 1) lim (out @ [escaped e])"
  by (subst parse_string_loop.simps) (simp add: escaped_def)

lemma psl_esc_fault:
  "p < lim \<Longrightarrow> peek mem p = Some (CHR 0x5C) \<Longrightarrow> peek mem (p + 1) = None \<Longrightarrow>
   parse_string_loop mem p lim out = None"
  by (subst parse_string_loop.simps) simp

lemma parse_string_loop_length:
  "parse_string_loop mem p lim out = Some out' \<Longrightarrow> length out' \<le> length out + (lim - p)"
proof (induction mem p lim out rule: parse_string_loop.induct)
  case (1 mem p lim out)
  show ?case
  proof (cases "p < lim")
    case False
    with 1(3) show ?thesis by (simp add: psl_end)
  next
    case True
    with 1(3) obtain c where c: "peek mem p = Some c"
      by (cases "peek mem p") (simp_all add: psl_fault)
    show ?thesis
    proof (cases "c = CHR 0x5C")
      case False
      with 1(3) True c have "parse_string_loop mem (p + 1) lim (out @ [c]) = Some out'"
        by (simp add: psl_plain)
      from 1(2) [OF True c False this] True show ?thesis by simp
    next
      case bs: True
      with 1(3) True c obtain e where e: "peek mem (p + 1) = Some e"
        by (cases "peek mem (p + 1)") (simp_all add: psl_esc_fault)
      with 1(3) True c bs
      have "parse_string_loop mem (p + 1 + 1) lim (out @ [escaped e]) = Some out'"
        by (simp add: psl_esc)
      from 1(1) [OF True c bs e, folded escaped_def, OF this] True show ?thesis by simp
    qed
  qed
qed

lemma parse_string_loop_total:
  "lim < length mem \<Longrightarrow> \<exists>out'. parse_string_loop mem p lim out = Some out'"
proof (induction mem p lim out rule: parse_string_loop.induct)
  case (1 mem p lim out)
  show ?case
  proof (cases "p < lim")
    case False
    then show ?thesis by (simp add: psl_end)
  next
    case True
    with 1(3) have c: "peek mem p = Some (mem ! p)" by (simp add: peek_def)
    show ?thesis
    proof (cases "mem ! p = CHR 0x5C")
      case False
      from 1(2) [OF True c False 1(3)] True c False show ?thesis
        by (simp add: psl_plain)
    next
      case bs: True
      from True 1(3) have e: "peek mem (p + 1) = Some (mem ! (p + 1))" by (simp add: peek_def)
      from 1(1) [OF True c bs e, folded escaped_def, OF 1(3)] True c bs e show ?thesis
        by (simp add: psl_esc)
    qed
  qed
qed

lemma parse_string_loop_unescape:
  "p \<le> lim \<Longrightarrow> lim \<le> length mem \<Longrightarrow> escapes_closed (take (lim - p) (drop p mem)) \<Longrightarrow>
   parse_string_loop mem p lim out = Some (out @ unescape_spec (take (lim - p) (drop p mem)))"
proof (induction mem p lim out rule: parse_string_loop.induct)
  case (1 mem p lim out)
  show ?case
  proof (cases "p < lim")
    case False
    with 1(3) show ?thesis by (simp add: psl_end)
  next
    case True
    with 1(4) have c: "peek mem p = Some (mem ! p)" by (simp add: peek_def)
    note w = window_Cons [OF True 1(4)]
    show ?thesis
    proof (cases "mem ! p = CHR 0x5C")
      case False
      from 1(5) w False have "escapes_closed (take (lim - (p + 1)) (drop (p + 1) mem))"
        by (simp add: escapes_closed_plain)
      from 1(2) [OF True c False _ 1(4) this] True
      have "parse_string_loop mem (p + 1) lim (out @ [mem ! p])
            = Some ((out @ [mem ! p]) @ unescape_spec (take (lim - (p + 1)) (drop (p + 1) mem)))"
        by simp
      with True c False w show ?thesis
        by (simp add: psl_plain unescape_spec_plain)
    next
      case bs: True
      have lt: "p + 1 < lim"
      proof (rule ccontr)
        assume "\<not> p + 1 < lim"
        with True have "lim - (p + 1) = 0" by simp
        with 1(5) w bs show False by simp
      qed
      with 1(4) have e: "peek mem (p + 1) = Some (mem ! (p + 1))" by (simp add: peek_def)
      note w2 = window_Cons [OF lt 1(4)]
      from 1(5) w w2 bs have "escapes_closed (take (lim - (p + 1 + 1)) (drop (p + 1 + 1) mem))"
        by simp
      from 1(1) [OF True c bs e, folded escaped_def, OF _ 1(4) this] lt
      have "parse_string_loop mem (p + 1 + 1) lim (out @ [escaped (mem ! (p + 1))])
            = Some ((out @ [escaped (mem ! (p + 1))])
                    @ unescape_spec (take (lim - (p + 1 + 1)) (drop (p + 1 + 1) mem)))"
        by simp
      with True c bs e w w2 show ?thesis
        by (simp add: psl_esc)
    qed
  qed
qed

lemma parse_string_loop_open_escape:
  "p \<le> lim \<Longrightarrow> lim < length mem \<Longrightarrow> \<not> escapes_closed (take (lim - p) (drop p mem)) \<Longrightarrow>
   parse_string_loop mem p lim out
     = Some (out @ unescape_spec (take (lim + 1 - p) (drop p mem)))"
proof (induction mem p lim out rule: parse_string_loop.induct)
  case (1 mem p lim out)
  from 1(4) have le: "lim \<le> length mem" and le1: "lim + 1 \<le> length mem" by simp_all
  show ?case
  proof (cases "p < lim")
    case False
    with 1(3,5) show ?thesis by simp
  next
    case True
    with 1(4) have c: "peek mem p = Some (mem ! p)" by (simp add: peek_def)
    note w = window_Cons [OF True le]
    from True have t1: "p < lim + 1" by simp
    note w1 = window_Cons [OF t1 le1]
    show ?thesis
    proof (cases "mem ! p = CHR 0x5C")
      case False
      from 1(5) w False have "\<not> escapes_closed (take (lim - (p + 1)) (drop (p + 1) mem))"
        by (simp add: escapes_closed_plain)
      from 1(2) [OF True c False _ 1(4) this] True
      have "parse_string_loop mem (p + 1) lim (out @ [mem ! p])
            = Some ((out @ [mem ! p]) @ unescape_spec (take (lim + 1 - (p + 1)) (drop (p + 1) mem)))"
        by simp
      with True c False w1 show ?thesis
        by (simp add: psl_plain unescape_spec_plain)
    next
      case bs: True
      from True 1(4) have e: "peek mem (p + 1) = Some (mem ! (p + 1))" by (simp add: peek_def)
      from True have t2: "p + 1 < lim + 1" by simp
      note w12 = window_Cons [OF t2 le1]
      show ?thesis
      proof (cases "p + 1 < lim")
        case lt: True
        note w2 = window_Cons [OF lt le]
        from 1(5) w w2 bs have "\<not> escapes_closed (take (lim - (p + 1 + 1)) (drop (p + 1 + 1) mem))"
          by simp
        from 1(1) [OF True c bs e, folded escaped_def, OF _ 1(4) this] lt
        have "parse_string_loop mem (p + 1 + 1) lim (out @ [escaped (mem ! (p + 1))])
              = Some ((out @ [escaped (mem ! (p + 1))])
                      @ unescape_spec (take (lim + 1 - (p + 1 + 1)) (drop (p + 1 + 1) mem)))"
          by simp
        with True c bs e w1 w12 show ?thesis
          by (simp add: psl_esc)
      next
        case False
        with True have eq: "lim = p + 1" by simp
        have "parse_string_loop mem (p + 1 + 1) lim (out @ [escaped (mem ! (p + 1))])
              = Some (out @ [escaped (mem ! (p + 1))])"
          by (rule psl_end) (simp add: eq)
        with True c bs e w1 w12 eq show ?thesis
          by (simp add: psl_esc)
      qed
    qed
  qed
qed

text \<open>
  C9. The specification: for every span that \<^verbatim>\<open>spa_json_is_string\<close> accepts,
  \<^verbatim>\<open>spa_json_parse_string\<close> copies the bytes strictly between the opening and the closing
  quote, decoded. \<^verbatim>\<open>spa_json_is_string\<close> looks at the length and the first byte only, and
  the loop steps over the byte after a backslash without comparing the position with the
  end of the interior. On the four bytes \<^verbatim>\<open>"a\"\<close> the predicate holds, the interior is
  \<^verbatim>\<open>a\<close> and a backslash, and the function returns 1 having stored \<^verbatim>\<open>a\<close>, a quote and
  NUL: the second byte stored is the last byte of the span, the closing quote, which is
  not between the quotes.
\<close>

theorem parse_string_copies_closing_quote_counterexample:
  "spa_json_is_string escaped_quote_string 0 4 = Some True
   \<and> interior escaped_quote_string 0 4 = [CHR ''a'', CHR 0x5C]
   \<and> spa_json_parse_string escaped_quote_string 0 4 = Some (1, [CHR ''a'', CHR 0x22, CHR 0x00])
   \<and> peek escaped_quote_string (0 + nat 4 - 1) = Some (CHR 0x22)
   \<and> CHR 0x22 \<notin> set (interior escaped_quote_string 0 4)
   \<and> [CHR ''a'', CHR 0x22] \<noteq> unescape_spec (interior escaped_quote_string 0 4)"
  by code_simp

text \<open>
  C9, corrected: for a span that \<^verbatim>\<open>spa_json_is_string\<close> accepts and that lies in the memory,
  \<^verbatim>\<open>spa_json_parse_string\<close> returns 1; what it stores is a list \<open>out\<close> followed by a NUL,
  at most \<^verbatim>\<open>len - 1\<close> bytes in all; and, provided that the bytes between the first and
  the last byte of the span leave no backslash without a follower (the closing quote is
  not itself escaped), \<open>out\<close> is the specification's decoding of those bytes.
\<close>

theorem parse_string_decodes:
  assumes "spa_json_is_string mem val len = Some True" and "val + nat len \<le> length mem"
  shows "\<exists>out. spa_json_parse_string mem val len = Some (1, out @ [CHR 0x00])
           \<and> int (length (out @ [CHR 0x00])) \<le> len - 1
           \<and> (escapes_closed (interior mem val len) \<longrightarrow> out = unescape_spec (interior mem val len))"
proof -
  from assms(1) have len: "1 < len"
    by (auto simp: spa_json_is_string_def split: if_splits)
  define lim where "lim = nat (int val + len - 1)"
  from len have lim: "lim = val + nat len - 1" "val + 1 \<le> lim" "lim - (val + 1) = nat len - 2"
    by (auto simp: lim_def)
  from lim assms(2) len have lt: "lim < length mem" and le: "lim \<le> length mem" by auto
  from parse_string_loop_total [OF lt, of "val + 1" "[]"]
  obtain out where out: "parse_string_loop mem (val + 1) lim [] = Some out" by blast
  from parse_string_loop_length [OF out] lim len have "int (length (out @ [CHR 0x00])) \<le> len - 1"
    by simp
  moreover have "out = unescape_spec (interior mem val len)" if "escapes_closed (interior mem val len)"
    using parse_string_loop_unescape [OF lim(2) le, of "[]"] that out lim(3)
    by (simp add: interior_def)
  moreover from out assms(1) have "spa_json_parse_string mem val len = Some (1, out @ [CHR 0x00])"
    by (simp add: spa_json_parse_string_def lim_def)
  ultimately show ?thesis by blast
qed

theorem parse_string_decodes_witness:
  "spa_json_is_string sample_string 0 10 = Some True \<and> 0 + nat 10 \<le> length sample_string
   \<and> escapes_closed (interior sample_string 0 10)
   \<and> spa_json_parse_string sample_string 0 10
       = Some (1, [CHR ''a'', CHR 0x0A, CHR ''u'', CHR ''0'', CHR 0x22, CHR 0x00])
   \<and> unescape_spec (interior sample_string 0 10) = [CHR ''a'', CHR 0x0A, CHR ''u'', CHR ''0'', CHR 0x22]"
proof -
  have s: "spa_json_is_string sample_string 0 10 = Some True" by code_simp
  have l: "0 + nat 10 \<le> length sample_string" by code_simp
  have e: "escapes_closed (interior sample_string 0 10)" by code_simp
  have u: "unescape_spec (interior sample_string 0 10)
           = [CHR ''a'', CHR 0x0A, CHR ''u'', CHR ''0'', CHR 0x22]" by code_simp
  from parse_string_decodes [OF s l] e u s l show ?thesis by auto
qed

text \<open>
  The other case: when a backslash of the interior is left without a follower, the last byte
  of the span is taken as the byte it escapes, and what is stored is the decoding of the
  interior with that byte appended.
\<close>

lemma parse_string_open_escape:
  assumes "spa_json_is_string mem val len = Some True" and "val + nat len \<le> length mem"
    and "\<not> escapes_closed (interior mem val len)"
  shows "spa_json_parse_string mem val len
     = Some (1, unescape_spec (take (nat len - 1) (drop (val + 1) mem)) @ [CHR 0x00])"
proof -
  from assms(1) have len: "1 < len"
    by (auto simp: spa_json_is_string_def split: if_splits)
  define lim where "lim = nat (int val + len - 1)"
  from len have lim: "lim = val + nat len - 1" "val + 1 \<le> lim" "lim - (val + 1) = nat len - 2"
    "lim + 1 - (val + 1) = nat len - 1"
    by (auto simp: lim_def)
  from lim assms(2) len have lt: "lim < length mem" by auto
  from assms(3) lim(3) have "\<not> escapes_closed (take (lim - (val + 1)) (drop (val + 1) mem))"
    by (simp add: interior_def)
  from parse_string_loop_open_escape [OF lim(2) lt this, of "[]"] lim(4)
  have "parse_string_loop mem (val + 1) lim []
        = Some (unescape_spec (take (nat len - 1) (drop (val + 1) mem)))"
    by simp
  with assms(1) show ?thesis
    by (simp add: spa_json_parse_string_def lim_def)
qed
section \<open>The parent's skip follows the child's walk\<close>

text \<open>Depths that are \<open>shallow\<close> do not wrap around when 1 or 2 is added.\<close>

lemma shallow_succ_unat: "shallow d \<Longrightarrow> unat (d + 1) = unat d + 1"
  using unat_add_lem [of d 1] by (simp add: shallow_def)




lemma shallow_succ_gt: "shallow d \<Longrightarrow> 1 < d + 1 \<longleftrightarrow> d \<noteq> 0"
  using shallow_succ_unat [of d] by (auto simp: word_less_nat_alt unat_gt_0)

lemma depth_pred_unat: "(d :: 32 word) \<noteq> 0 \<Longrightarrow> unat (d - 1) = unat d - 1"
  by (simp add: unat_minus_one)

lemma shallow_0 [simp]: "shallow 0"
  by (simp add: shallow_def)

lemma flat_simps [simp]:
  "cur (flat pq c) = cur c" "endp (flat pq c) = endp c" "parent (flat pq c) = pq"
  "depth (flat pq c) = depth c + 1"
  "state (flat pq c) = (if state c = NONE then STRUCT else state c)"
  "flat pq (c\<lparr>cur := k\<rparr>) = (flat pq c)\<lparr>cur := k\<rparr>"
  "flat pq (c\<lparr>depth := d\<rparr>) = (flat pq c)\<lparr>depth := d + 1\<rparr>"
  by (simp_all add: flat_def)

lemma flat_state [simp]:
  "s \<noteq> NONE \<Longrightarrow> flat pq (c\<lparr>state := s\<rparr>) = (flat pq c)\<lparr>state := s\<rparr>"
  by (simp add: flat_def)

text \<open>One pass through the \<^verbatim>\<open>switch\<close>, by the class of the byte.\<close>

lemma step_STRUCT:
  "state c = STRUCT \<Longrightarrow> again b c v u =
    (if is_sep b then Continue c v u
     else if is_quote b then Continue (c\<lparr>state := STRING\<rparr>) (cur c) u
     else if is_open b then
       (if 1 < depth c + 1 then Continue (c\<lparr>depth := depth c + 1\<rparr>) (cur c) u
        else Return (c\<lparr>depth := depth c + 1, cur := cur c + 1\<rparr>) (cur c) 1)
     else if is_close b then
       (if depth c = 0 then Return_parent c v
        else Continue (c\<lparr>depth := depth c - 1\<rparr>) v u)
     else if is_bare_start b then Continue (c\<lparr>state := BARE\<rparr>) (cur c) u
     else Return c v (- 1))"
  unfolding is_sep_def is_quote_def is_open_def is_close_def is_bare_start_def
  by (rule again_STRUCT)

lemma step_BARE:
  "state c = BARE \<Longrightarrow> again b c v u =
    (if is_bare_end b then
       (if 0 < depth c then again b (c\<lparr>state := STRUCT\<rparr>) v u
        else Return (c\<lparr>state := STRUCT\<rparr>) v (int_of_ptrdiff (int (cur c) - int v)))
     else if is_print b then Continue c v u
     else Return c v (- 1))"
  unfolding is_bare_end_def is_print_def
  by (rule again_BARE)

lemma step_STRING:
  "state c = STRING \<Longrightarrow> again b c v u =
    (if is_backslash b then Continue (c\<lparr>state := ESC\<rparr>) v u
     else if is_quote b then
       (if 0 < depth c then Continue (c\<lparr>state := STRUCT\<rparr>) v u
        else Return (c\<lparr>state := STRUCT, cur := cur c + 1\<rparr>) v
               (int_of_ptrdiff (int (cur c + 1) - int v)))
     else if case_range 240 247 b then Continue (c\<lparr>state := UTF8\<rparr>) v (u + 3)
     else if case_range 224 239 b then Continue (c\<lparr>state := UTF8\<rparr>) v (u + 2)
     else if case_range 192 223 b then Continue (c\<lparr>state := UTF8\<rparr>) v (u + 1)
     else if is_print b then Continue c v u
     else Return c v (- 1))"
  unfolding is_backslash_def is_quote_def is_print_def
  by (rule again_STRING)

lemma step_ESC:
  "state c = ESC \<Longrightarrow> again b c v u =
    (if is_escape b then Continue (c\<lparr>state := STRING\<rparr>) v u else Return c v (- 1))"
  unfolding is_escape_def
  by (rule again_ESC)

lemmas step_state = again_NONE step_STRUCT step_BARE step_STRING again_UTF8 step_ESC


text \<open>
  One pass of the child against one pass of the parent, and what it keeps of \<open>inside\<close>.
\<close>

lemma inside_shallow: "inside c u \<Longrightarrow> cur c < endp c \<Longrightarrow> shallow (depth c)"
  by (simp add: inside_def shallow_def) linarith

lemma flat_NONE:
  "state c = NONE \<Longrightarrow> depth c = 0 \<Longrightarrow> flat pq c = flat pq (c\<lparr>state := STRUCT, depth := 0\<rparr>)"
  by (simp add: flat_def)


lemma again_STRUCT_Return_pos:
  assumes "again b c v u = Return c' v' r" and "0 < r" and "state c = STRUCT"
  shows "\<not> is_sep b \<and> \<not> is_quote b \<and> is_open b \<and> \<not> 1 < depth c + 1
     \<and> c' = c\<lparr>depth := depth c + 1, cur := cur c + 1\<rparr>"
  using assms by (clarsimp simp: step_STRUCT split: if_splits)




lemma again_STRUCT_Continue_facts:
  assumes "again b c v u = Continue c1 v1 u1" and "state c = STRUCT" and "shallow (depth c)"
  shows "unat (depth c1) \<le> unat (depth c) + 1 \<and> state c1 \<noteq> NONE \<and> state c1 \<noteq> UTF8 \<and> u1 = u"
  using assms
  by (clarsimp simp: step_STRUCT shallow_succ_unat depth_pred_unat split: if_splits; linarith)

lemma again_Continue_facts:
  assumes a: "again b c v u = Continue c1 v1 u1" and n: "state c = NONE \<longrightarrow> depth c = 0"
    and s: "shallow (depth c)" and j: "state c \<noteq> UTF8 \<longrightarrow> u = 0"
  shows "unat (depth c1) \<le> unat (depth c) + 1 \<and> state c1 \<noteq> NONE
     \<and> (state c1 \<noteq> UTF8 \<longrightarrow> u1 = 0)"
proof (cases "state c")
  case NONE
  with a have "again b (c\<lparr>state := STRUCT, depth := 0\<rparr>) v u = Continue c1 v1 u1"
    by (simp add: again_NONE)
  from again_STRUCT_Continue_facts [OF this] NONE n j show ?thesis by simp
next
  case STRUCT
  from again_STRUCT_Continue_facts [OF a STRUCT s] STRUCT j show ?thesis by simp
next
  case BARE
  show ?thesis
  proof (cases "is_bare_end b")
    case True
    show ?thesis
    proof (cases "0 < depth c")
      case pos: True
      with a BARE True have "again b (c\<lparr>state := STRUCT\<rparr>) v u = Continue c1 v1 u1"
        by (simp add: step_BARE)
      from again_STRUCT_Continue_facts [OF this] s BARE j show ?thesis by simp
    next
      case False
      with a BARE True have False by (simp add: step_BARE)
      then show ?thesis ..
    qed
  next
    case False
    with a BARE have "c1 = c \<and> u1 = u" by (simp add: step_BARE split: if_splits)
    with BARE j show ?thesis by simp
  qed
next
  case STRING
  with a j show ?thesis
    by (clarsimp simp: step_STRING split: if_splits)
next
  case UTF8
  with a show ?thesis
    by (clarsimp simp: again_UTF8 split: if_splits)
next
  case ESC
  with a j show ?thesis
    by (clarsimp simp: step_ESC split: if_splits)
qed

lemma again_inside_Continue:
  assumes a: "again b c v u = Continue c1 v1 u1" and i: "inside c u" and l: "cur c < endp c"
  shows "inside (c1\<lparr>cur := cur c1 + 1\<rparr>) u1"
proof -
  from i have n: "state c = NONE \<longrightarrow> depth c = 0" and j: "state c \<noteq> UTF8 \<longrightarrow> u = 0"
    and b: "unat (depth c) + (endp c - cur c) + 1 < 2 ^ 32"
    by (simp_all add: inside_def)
  note f = again_Continue_facts [OF a n inside_shallow [OF i l] j]
  note w = again_Continue [OF a]
  from f w l have "unat (depth c1) + (endp c1 - (cur c1 + 1)) + 1
      \<le> unat (depth c) + (endp c - cur c) + 1"
    by (simp; linarith)
  from this b have "unat (depth c1) + (endp c1 - (cur c1 + 1)) + 1 < 2 ^ 32"
    by (rule le_less_trans)
  with f show ?thesis by (simp add: inside_def)
qed














section \<open>The spans that are returned\<close>

text \<open>
  Two facts about a call that starts in \<^verbatim>\<open>__NONE\<close> or \<^verbatim>\<open>__STRUCT\<close>. A returned span that
  starts with a quote is a string for \<^verbatim>\<open>spa_json_is_string\<close>, lies in the memory and
  leaves no backslash without a follower (\<open>next_string_span\<close>): these are the
  hypotheses under which the decoding of a span is proved above. A returned span that
  starts with \<^verbatim>\<open>[\<close> or \<^verbatim>\<open>{\<close> leaves the cursor in \<^verbatim>\<open>__STRUCT\<close> with depth 1, one byte
  past the start of the span (\<open>next_reports_container\<close>): this is the state from which
  entering and skipping are compared below.
\<close>

lemma int_of_ptrdiff_id: "0 \<le> d \<Longrightarrow> d < 2 ^ 31 \<Longrightarrow> int_of_ptrdiff d = d"
  by (simp add: int_of_ptrdiff_def int_word_sint)

lemma escapes_closed_snoc:
  "escapes_closed xs \<Longrightarrow> c \<noteq> CHR 0x5C \<Longrightarrow> escapes_closed (xs @ [c])"
  by (induction xs rule: escapes_closed.induct) (auto split: if_splits)

lemma escapes_closed_snoc2:
  "escapes_closed xs \<Longrightarrow> escapes_closed (xs @ [CHR 0x5C, e])"
  by (induction xs rule: escapes_closed.induct) (auto split: if_splits)

lemma window_snoc:
  "a \<le> k \<Longrightarrow> k < length mem \<Longrightarrow>
   take (k + 1 - a) (drop a mem) = take (k - a) (drop a mem) @ [mem ! k]"
  by (simp add: Suc_diff_le take_Suc_conv_app_nth)

lemma window_snoc2:
  assumes "a < k" and "k < length mem"
  shows "take (k + 1 - a) (drop a mem) = take (k - 1 - a) (drop a mem) @ [mem ! (k - 1), mem ! k]"
proof -
  from assms have "take (k - a) (drop a mem) = take (k - 1 - a) (drop a mem) @ [mem ! (k - 1)]"
    using window_snoc [of a "k - 1" mem] by simp
  with window_snoc [of a k mem] assms show ?thesis by simp
qed

lemma peek_nth: "peek mem p = Some b \<Longrightarrow> p < length mem \<and> mem ! p = b"
  by (auto simp: peek_def split: if_splits)

lemma range_not_backslash: "case_range 128 191 b \<Longrightarrow> b \<noteq> CHR 0x5C"
  by (auto simp: case_range_def uchar_def)

text \<open>One pass through the \<^verbatim>\<open>switch\<close> keeps \<open>tok\<close>.\<close>

lemma tok_STRUCT [simp]: "state c = STRUCT \<Longrightarrow> tok mem c v"
  by (simp add: tok_def)

lemma again_tok_STRUCT:
  assumes a: "again b c v u = Continue c1 v1 u1" and s: "state c = STRUCT"
    and p: "peek mem (cur c) = Some b"
  shows "tok mem (c1\<lparr>cur := cur c1 + 1\<rparr>) v1"
  using assms
  by (clarsimp simp: step_STRUCT tok_def is_quote_def split: if_splits)

lemma again_tok_Continue:
  assumes a: "again b c v u = Continue c1 v1 u1" and t: "tok mem c v"
    and p: "peek mem (cur c) = Some b"
  shows "tok mem (c1\<lparr>cur := cur c1 + 1\<rparr>) v1"
proof (cases "state c")
  case NONE
  with a have "again b (c\<lparr>state := STRUCT, depth := 0\<rparr>) v u = Continue c1 v1 u1"
    by (simp add: again_NONE)
  from again_tok_STRUCT [OF this, of mem] p show ?thesis by simp
next
  case STRUCT
  from again_tok_STRUCT [OF a STRUCT p] show ?thesis .
next
  case BARE
  show ?thesis
  proof (cases "is_bare_end b")
    case True
    show ?thesis
    proof (cases "0 < depth c")
      case pos: True
      with a BARE True have "again b (c\<lparr>state := STRUCT\<rparr>) v u = Continue c1 v1 u1"
        by (simp add: step_BARE)
      from again_tok_STRUCT [OF this, of mem] p show ?thesis by simp
    next
      case False
      with a BARE True have False by (simp add: step_BARE)
      then show ?thesis ..
    qed
  next
    case False
    with a BARE have "c1 = c \<and> v1 = v" by (simp add: step_BARE split: if_splits)
    with BARE t show ?thesis by (simp add: tok_def)
  qed
next
  case STRING
  from t STRING have v: "v < cur c" "peek mem v = Some (CHR 0x22)"
    "escapes_closed (take (cur c - (v + 1)) (drop (v + 1) mem))"
    by (simp_all add: tok_def)
  from peek_nth [OF p] v(1) have w: "take (cur c + 1 - (v + 1)) (drop (v + 1) mem)
      = take (cur c - (v + 1)) (drop (v + 1) mem) @ [b]"
    using window_snoc [of "v + 1" "cur c" mem] by simp
  show ?thesis
  proof (cases "is_backslash b")
    case True
    with a STRING have "c1 = c\<lparr>state := ESC\<rparr> \<and> v1 = v" by (simp add: step_STRING)
    with v p True show ?thesis by (simp add: tok_def is_backslash_def)
  next
    case nb: False
    show ?thesis
    proof (cases "is_quote b")
      case True
      with a STRING nb have "state c1 = STRUCT"
        by (clarsimp simp: step_STRING split: if_splits)
      then show ?thesis by simp
    next
      case False
      with a STRING nb have "(state c1 = STRING \<or> state c1 = UTF8) \<and> v1 = v \<and> cur c1 = cur c"
        by (clarsimp simp: step_STRING split: if_splits)
      moreover from nb v(3) w
      have "escapes_closed (take (cur c + 1 - (v + 1)) (drop (v + 1) mem))"
        by (simp add: escapes_closed_snoc is_backslash_def)
      ultimately show ?thesis using v by (auto simp: tok_def)
    qed
  qed
next
  case UTF8
  from t UTF8 have v: "v < cur c" "peek mem v = Some (CHR 0x22)"
    "escapes_closed (take (cur c - (v + 1)) (drop (v + 1) mem))"
    by (simp_all add: tok_def)
  from peek_nth [OF p] v(1) have w: "take (cur c + 1 - (v + 1)) (drop (v + 1) mem)
      = take (cur c - (v + 1)) (drop (v + 1) mem) @ [b]"
    using window_snoc [of "v + 1" "cur c" mem] by simp
  from a UTF8 have r: "case_range 128 191 b \<and> (state c1 = STRING \<or> state c1 = UTF8)
      \<and> v1 = v \<and> cur c1 = cur c"
    by (clarsimp simp: again_UTF8 split: if_splits)
  with v(3) w have "escapes_closed (take (cur c + 1 - (v + 1)) (drop (v + 1) mem))"
    by (simp add: escapes_closed_snoc range_not_backslash)
  with r v show ?thesis by (auto simp: tok_def)
next
  case ESC
  from t ESC have v: "v + 1 < cur c" "peek mem v = Some (CHR 0x22)"
    "escapes_closed (take (cur c - 1 - (v + 1)) (drop (v + 1) mem))"
    "peek mem (cur c - 1) = Some (CHR 0x5C)"
    by (simp_all add: tok_def)
  from peek_nth [OF p] peek_nth [OF v(4)] v(1)
  have w: "take (cur c + 1 - (v + 1)) (drop (v + 1) mem)
      = take (cur c - 1 - (v + 1)) (drop (v + 1) mem) @ [CHR 0x5C, b]"
    using window_snoc2 [of "v + 1" "cur c" mem] by simp
  from a ESC have r: "state c1 = STRING \<and> v1 = v \<and> cur c1 = cur c"
    by (clarsimp simp: step_ESC split: if_splits)
  from v(3) w have "escapes_closed (take (cur c + 1 - (v + 1)) (drop (v + 1) mem))"
    by (simp add: escapes_closed_snoc2)
  with r v show ?thesis by (auto simp: tok_def)
qed

lemma not_bare_start [simp]:
  "\<not> is_bare_start (CHR ''['')" "\<not> is_bare_start (CHR ''{'')" "\<not> is_bare_start (CHR 0x22)"
  by (simp_all add: is_bare_start_def case_range_def uchar_def)

lemma again_STRUCT_Return_value:
  assumes "again b c v u = Return c' v' r" and "0 < r" and "state c = STRUCT"
  shows "v' = cur c"
  using assms by (clarsimp simp: step_STRUCT split: if_splits)

lemma again_Return_pos_cases:
  assumes a: "again b c v u = Return c' v' r" and r: "0 < r"
  obtains (container) "is_open b" "\<not> is_quote b" "v' = cur c" "cur c' = cur c + 1"
      "state c' = STRUCT" "\<not> 1 < depth c'"
      "depth c' = (if state c = NONE then 0 else depth c) + 1"
  | (bare) "state c = BARE" "v' = v" "c' = c\<lparr>state := STRUCT\<rparr>"
  | (string) "state c = STRING" "is_quote b" "v' = v" "cur c' = cur c + 1"
      "r = int_of_ptrdiff (int (cur c + 1) - int v)" "state c' = STRUCT"
proof (cases "state c")
  case NONE
  with a have a0: "again b (c\<lparr>state := STRUCT, depth := 0\<rparr>) v u = Return c' v' r"
    by (simp add: again_NONE)
  from again_STRUCT_Return_pos [OF a0 r] again_STRUCT_Return_value [OF a0 r] NONE
  show ?thesis by (intro container) simp_all
next
  case STRUCT
  from again_STRUCT_Return_pos [OF a r STRUCT] again_STRUCT_Return_value [OF a r STRUCT] STRUCT
  show ?thesis by (intro container) simp_all
next
  case BARE
  show ?thesis
  proof (cases "is_bare_end b")
    case True
    show ?thesis
    proof (cases "0 < depth c")
      case pos: True
      with a BARE True have a0: "again b (c\<lparr>state := STRUCT\<rparr>) v u = Return c' v' r"
        by (simp add: step_BARE)
      from again_STRUCT_Return_pos [OF a0 r] again_STRUCT_Return_value [OF a0 r] BARE
      show ?thesis by (intro container) simp_all
    next
      case False
      with a BARE True have "v' = v" "c' = c\<lparr>state := STRUCT\<rparr>"
        by (auto simp: step_BARE)
      with BARE show ?thesis by (intro bare)
    qed
  next
    case False
    with a BARE r have False by (simp add: step_BARE split: if_splits)
    then show ?thesis ..
  qed
next
  case STRING
  show ?thesis
  proof (cases "\<not> is_backslash b \<and> is_quote b \<and> \<not> 0 < depth c")
    case True
    with a STRING have "c' = c\<lparr>state := STRUCT, cur := cur c + 1\<rparr>" "v' = v"
      "r = int_of_ptrdiff (int (cur c + 1) - int v)"
      by (auto simp: step_STRING)
    with STRING True show ?thesis by (intro string) simp_all
  next
    case False
    with a STRING r have False by (simp add: step_STRING split: if_splits)
    then show ?thesis ..
  qed
next
  case UTF8
  with a r have False by (simp add: again_UTF8 split: if_splits)
  then show ?thesis ..
next
  case ESC
  with a r have False by (simp add: step_ESC split: if_splits)
  then show ?thesis ..
qed

lemma again_Return_string:
  assumes a: "again b c v u = Return c' v' r" and r: "0 < r" and t: "tok mem c v"
    and p: "peek mem (cur c) = Some b" and q: "peek mem v' = Some (CHR 0x22)"
    and l: "cur c + 1 < 2 ^ 31"
  shows "spa_json_is_string mem v' r = Some True \<and> v' + nat r \<le> length mem
     \<and> escapes_closed (interior mem v' r)"
  using a r
proof (cases rule: again_Return_pos_cases)
  case container
  with p q peek_nth [OF p] have False by (auto simp: is_quote_def)
  then show ?thesis ..
next
  case bare
  with t q have False by (auto simp: tok_def)
  then show ?thesis ..
next
  case string
  from t string(1) have v: "v < cur c" "peek mem v = Some (CHR 0x22)"
    "escapes_closed (take (cur c - (v + 1)) (drop (v + 1) mem))"
    by (simp_all add: tok_def)
  from v(1) l have "int_of_ptrdiff (int (cur c + 1) - int v) = int (cur c + 1) - int v"
    by (intro int_of_ptrdiff_id) simp_all
  with string(5) have r': "r = int (cur c + 1) - int v" by simp
  with v(1) have n: "nat r = cur c + 1 - v" "1 < r" by simp_all
  from n v(1) have "nat r - 2 = cur c - (v + 1)" by simp
  with v string(3) n peek_nth [OF p] show ?thesis
    by (simp add: spa_json_is_string_def interior_def)
qed

lemma again_Return_container:
  assumes a: "again b c v u = Return c' v' r" and r: "0 < r" and t: "tok mem c v"
    and p: "peek mem (cur c) = Some b"
    and q: "peek mem v' = Some (CHR ''['') \<or> peek mem v' = Some (CHR ''{'')"
    and n: "state c = NONE \<longrightarrow> depth c = 0" and s: "shallow (depth c)"
  shows "state c' = STRUCT \<and> depth c' = 1 \<and> cur c' = v' + 1"
  using a r
proof (cases rule: again_Return_pos_cases)
  case container
  have "depth c' = 1"
  proof (cases "state c = NONE")
    case True
    with container(7) show ?thesis by simp
  next
    case False
    with container(6,7) s show ?thesis by (simp add: shallow_succ_gt)
  qed
  with container show ?thesis by simp
next
  case bare
  with t q have False by (auto simp: tok_def)
  then show ?thesis ..
next
  case string
  with t q have False by (auto simp: tok_def)
  then show ?thesis ..
qed

lemma loop_string_span:
  assumes "spa_json_loop mem c v u = out"
  shows "tok mem c v \<longrightarrow> endp c < 2 ^ 31 \<longrightarrow> out = Return c' v' r \<longrightarrow> 0 < r \<longrightarrow>
     peek mem v' = Some (CHR 0x22) \<longrightarrow>
     spa_json_is_string mem v' r = Some True \<and> v' + nat r \<le> length mem
     \<and> escapes_closed (interior mem v' r)"
  using assms
proof (induction rule: loop_cases)
  case (at_end c v u)
  show ?case by simp
next
  case (fault c v u)
  show ?case by simp
next
  case (stop c v u b)
  show ?case
  proof (intro impI)
    assume "tok mem c v" "endp c < 2 ^ 31" "again b c v u = Return c' v' r" "0 < r"
      "peek mem v' = Some (CHR 0x22)"
    with again_Return_string [of b c v u c' v' r mem] stop(1,2)
    show "spa_json_is_string mem v' r = Some True \<and> v' + nat r \<le> length mem
       \<and> escapes_closed (interior mem v' r)"
      by simp
  qed
next
  case (step c v u b c1 v1 u1 out)
  from again_tok_Continue [OF step(3) _ step(2)] again_Continue [OF step(3)] step(5)
  show ?case by simp
qed

lemma loop_container_span:
  assumes "spa_json_loop mem c v u = out"
  shows "tok mem c v \<longrightarrow> inside c u \<longrightarrow> out = Return c' v' r \<longrightarrow> 0 < r \<longrightarrow>
     (peek mem v' = Some (CHR ''['') \<or> peek mem v' = Some (CHR ''{'')) \<longrightarrow>
     state c' = STRUCT \<and> depth c' = 1 \<and> cur c' = v' + 1"
  using assms
proof (induction rule: loop_cases)
  case (at_end c v u)
  show ?case by simp
next
  case (fault c v u)
  show ?case by simp
next
  case (stop c v u b)
  show ?case
  proof (intro impI)
    assume t: "tok mem c v" and i: "inside c u" and a: "again b c v u = Return c' v' r"
      and r: "0 < r"
      and q: "peek mem v' = Some (CHR ''['') \<or> peek mem v' = Some (CHR ''{'')"
    from i have n: "state c = NONE \<longrightarrow> depth c = 0" by (simp add: inside_def)
    from again_Return_container [OF a r t stop(2) q n inside_shallow [OF i stop(1)]]
    show "state c' = STRUCT \<and> depth c' = 1 \<and> cur c' = v' + 1" .
  qed
next
  case (step c v u b c1 v1 u1 out)
  from again_tok_Continue [OF step(3) _ step(2)] again_inside_Continue [OF step(3) _ step(1)]
    step(5)
  show ?case by simp
qed

lemma tok_fresh: "state c = NONE \<or> state c = STRUCT \<Longrightarrow> tok mem c v"
  by (auto simp: tok_def)

lemma next_string_span:
  assumes "spa_json_next mem h iter v = Some (h', v', r)" and "0 < r"
    and "peek mem v' = Some (CHR 0x22)"
    and "state (h iter) = NONE \<or> state (h iter) = STRUCT" and "endp (h iter) < 2 ^ 31"
  shows "spa_json_is_string mem v' r = Some True \<and> v' + nat r \<le> length mem
     \<and> escapes_closed (interior mem v' r)"
  using assms(1)
proof (cases rule: next_cases)
  case (Return c')
  from loop_string_span [OF Return(1), of c' v' r] tok_fresh [OF assms(4)] assms(2,3,5)
  show ?thesis by simp
next
  case (Return_parent c')
  with assms(2) show ?thesis by simp
qed

lemma next_reports_container:
  assumes "spa_json_next mem h0 iter v = Some (h, va, r)" and "0 < r"
    and "peek mem va = Some (CHR ''['') \<or> peek mem va = Some (CHR ''{'')"
    and "state (h0 iter) = NONE \<or> state (h0 iter) = STRUCT" and "inside (h0 iter) 0"
  shows "state (h iter) = STRUCT \<and> depth (h iter) = 1 \<and> cur (h iter) = va + 1"
  using assms(1)
proof (cases rule: next_cases)
  case (Return c')
  from loop_container_span [OF Return(1), of c' va r] tok_fresh [OF assms(4)] assms(2,3,5)
    Return(2)
  show ?thesis by simp
next
  case (Return_parent c')
  with assms(2) show ?thesis by simp
qed

section \<open>Draining returns\<close>

text \<open>
  On a window that lies in the memory no read is outside it, a call that returns a span
  decreases \<open>calls_left\<close>, and so a drain with more calls allowed than \<open>calls_left\<close>
  returns.
\<close>

lemma loop_no_Fault:
  assumes "spa_json_loop mem c v u = out"
  shows "endp c \<le> length mem \<longrightarrow> out \<noteq> Fault"
  using assms
proof (induction rule: loop_cases)
  case (fault c v u)
  then show ?case by (simp add: peek_def split: if_splits)
next
  case (stop c v u b)
  show ?case by (simp add: again_not_Fault)
next
  case (step c v u b c1 v1 u1 out)
  from again_Continue [OF step(3)] step(5) show ?case by simp
qed simp

lemma loop_progress:
  assumes "spa_json_loop mem c v u = out"
  shows "out = Return c' v' r \<longrightarrow> 0 < r \<longrightarrow> calls_left c' < calls_left c"
  using assms
proof (induction rule: loop_cases)
  case (at_end c v u)
  show ?case by simp
next
  case (fault c v u)
  show ?case by simp
next
  case (stop c v u b)
  show ?case
  proof (intro impI)
    assume a: "again b c v u = Return c' v' r" and r: "0 < r"
    from again_Return [OF a] have e: "endp c' = endp c" by simp
    from a r show "calls_left c' < calls_left c"
    proof (cases rule: again_Return_pos_cases)
      case container
      with e stop(1) show ?thesis by (simp add: calls_left_def)
    next
      case bare
      then show ?thesis by (simp add: calls_left_def)
    next
      case string
      with e stop(1) show ?thesis by (simp add: calls_left_def)
    qed
  qed
next
  case (step c v u b c1 v1 u1 out)
  from again_Continue [OF step(3)] step(1)
  have "calls_left (c1\<lparr>cur := cur c1 + 1\<rparr>) \<le> calls_left c"
    by (auto simp: calls_left_def)
  with step(5) show ?case by auto
qed


lemma drain_returns:
  "endp (h iter) \<le> length mem \<Longrightarrow> calls_left (h iter) < n \<Longrightarrow>
   \<exists>x. drain n mem h iter v = Some x"
proof (induction n arbitrary: h v)
  case 0
  then show ?case by simp
next
  case (Suc n)
  show ?case
  proof (cases "spa_json_loop mem (h iter) v 0")
    case (Continue c' v' u')
    from loop_not_Continue [OF Continue, of c' v' u'] show ?thesis by simp
  next
    case (Return c' v' r)
    note n = next_Return [of mem h iter v c' v' r, OF Return]
    show ?thesis
    proof (cases "0 < r")
      case False
      with n show ?thesis by simp
    next
      case True
      from loop_progress [OF Return, of c' v' r] True Suc.prems(2)
      have "calls_left c' < n" by simp
      moreover from loop_Return [OF Return refl] Suc.prems(1) have "endp c' \<le> length mem"
        by simp
      ultimately have "\<exists>x. drain n mem (h(iter := c')) iter v' = Some x"
        by (intro Suc.IH) simp_all
      with n True show ?thesis by simp
    qed
  next
    case (Return_parent c' v')
    from next_Return_parent [of mem h iter v c' v', OF Return_parent] show ?thesis by simp
  next
    case Fault
    from loop_no_Fault [OF Fault] Suc.prems(1) show ?thesis by simp
  qed
qed

section \<open>Entering and draining a container against skipping it\<close>


lemma reported_by_next:
  "observe 0 (spa_json_next nested_sample (spa_json_init store0 0 0 12) 0 0)
     = Some (1, 0, reported 0)"
  by code_simp


end
